theory Spec2Isabelle
  imports Main
begin

section \<open>Records, errors and record streams\<close>

text \<open>
  The processor of \<^verbatim>\<open>spectrometer/processor/main.py\<close> moves Python dictionaries
  (records) from source adapters into the runtime storage. A record is a finite map from
  field names to values; the values the functions of this module look at are strings
  (\<^verbatim>\<open>record_type\<close>) and sets of branch names (\<^verbatim>\<open>branches\<close>).
\<close>

datatype pyval = PStr string | PSet "string set"

type_synonym pyrecord = "string \<rightharpoonup> pyval"

text \<open>Every exception the module can raise or let through is a value.\<close>

datatype error =
    KeyError string
  | TypeError
  | IndexError
  | AttributeError
  | SourceError string

text \<open>
  A record iterator is what a generator yields before it either ends or raises: the
  records yielded, and the exception that ends the iteration if there is one.
\<close>

type_synonym stream = "pyrecord list \<times> error option"

text \<open>One \<^verbatim>\<open>next()\<close> on an iterator: \<open>None\<close> is StopIteration.\<close>

fun iter_next :: "stream \<Rightarrow> (error + pyrecord \<times> stream) option" where
  "iter_next ([], None) = None"
| "iter_next ([], Some e) = Some (Inl e)"
| "iter_next (r # rs, e) = Some (Inr (r, (rs, e)))"

section \<open>\<^verbatim>\<open>_merge_commits\<close>\<close>

text \<open>
  \<^verbatim>\<open>
  def _merge_commits(original, new):
      if new['branches'] < original['branches']:
          return False
      else:
          original['branches'] |= new['branches']
          return True
  \<close>
  The function mutates \<^verbatim>\<open>original\<close> in place, so the model returns the flag
  together with the record \<^verbatim>\<open>original\<close> has become. A missing \<^verbatim>\<open>branches\<close>
  key raises KeyError; the subscript of \<^verbatim>\<open>new\<close> is evaluated first.
\<close>

definition get_branches :: "pyrecord \<Rightarrow> error + pyval" where
  "get_branches r =
     (case r ''branches'' of
        None \<Rightarrow> Inl (KeyError ''branches'')
      | Some v \<Rightarrow> Inr v)"

text \<open>
  \<^verbatim>\<open><\<close> is the proper-subset test on two sets and the lexicographic order of the
  code points on two strings, which on UTF-8 bytes is the order of the bytes; between a
  set and a string it raises TypeError. \<^verbatim>\<open>|=\<close> is the union on two sets and raises
  TypeError on anything else.
\<close>

fun str_less :: "string \<Rightarrow> string \<Rightarrow> bool" where
  "str_less [] [] = False"
| "str_less [] (y # ys) = True"
| "str_less (x # xs) [] = False"
| "str_less (x # xs) (y # ys) =
     ((of_char x :: nat) < of_char y \<or> (x = y \<and> str_less xs ys))"

fun py_less :: "pyval \<Rightarrow> pyval \<Rightarrow> error + bool" where
  "py_less (PSet a) (PSet b) = Inr (a \<subset> b)"
| "py_less (PStr a) (PStr b) = Inr (str_less a b)"
| "py_less (PSet a) (PStr b) = Inl TypeError"
| "py_less (PStr a) (PSet b) = Inl TypeError"

fun py_ior :: "pyval \<Rightarrow> pyval \<Rightarrow> error + pyval" where
  "py_ior (PSet a) (PSet b) = Inr (PSet (a \<union> b))"
| "py_ior (PStr a) v = Inl TypeError"
| "py_ior (PSet a) (PStr b) = Inl TypeError"

definition merge_commits :: "pyrecord \<Rightarrow> pyrecord \<Rightarrow> error + bool \<times> pyrecord" where
  "merge_commits original new =
     (case get_branches new of
        Inl e \<Rightarrow> Inl e
      | Inr nb \<Rightarrow>
          (case get_branches original of
             Inl e \<Rightarrow> Inl e
           | Inr ob \<Rightarrow>
               (case py_less nb ob of
                  Inl e \<Rightarrow> Inl e
                | Inr True \<Rightarrow> Inr (False, original)
                | Inr False \<Rightarrow>
                    (case py_ior ob nb of
                       Inl e \<Rightarrow> Inl e
                     | Inr v \<Rightarrow> Inr (True, original(''branches'' \<mapsto> v))))))"

section \<open>\<^verbatim>\<open>_record_typer\<close>\<close>

text \<open>
  \<^verbatim>\<open>
  def _record_typer(record_iterator, record_type):
      for record in record_iterator:
          record['record_type'] = record_type
          yield record
  \<close>
  The generator's state is the iterator it reads and the label. One \<^verbatim>\<open>next()\<close>
  on the generator does one \<^verbatim>\<open>next()\<close> on the iterator, tags the record it got and
  yields it; the end and an exception of the iterator pass through.
\<close>

definition set_record_type :: "string \<Rightarrow> pyrecord \<Rightarrow> pyrecord" where
  "set_record_type record_type r = r(''record_type'' \<mapsto> PStr record_type)"

definition record_typer_next ::
  "stream \<times> string \<Rightarrow> (error + pyrecord \<times> (stream \<times> string)) option" where
  "record_typer_next g =
     (case iter_next (fst g) of
        None \<Rightarrow> None
      | Some (Inl e) \<Rightarrow> Some (Inl e)
      | Some (Inr (r, it)) \<Rightarrow> Some (Inr (set_record_type (snd g) r, (it, snd g))))"

text \<open>
  Running a generator to its end gives the stream of what it yields. The input is a
  finite list, so the run is a structural recursion on it.
\<close>

fun record_typer :: "stream \<Rightarrow> string \<Rightarrow> stream" where
  "record_typer ([], e) record_type = ([], e)"
| "record_typer (r # rs, e) record_type =
     (case record_typer (rs, e) record_type of
        (out, e') \<Rightarrow> (set_record_type record_type r # out, e'))"

section \<open>The runtime storage and the collaborators\<close>

text \<open>
  The runtime storage is used through four calls: \<^verbatim>\<open>get_by_key\<close>,
  \<^verbatim>\<open>set_by_key\<close>, \<^verbatim>\<open>set_records\<close> and \<^verbatim>\<open>apply_corrections\<close>.
  Its state is the key-value part the first two read and write, the record store the
  other two change (kept abstract: the storage engine is not part of this module), and
  the list of the calls that have returned, oldest first. Values kept under keys are
  cursor tokens and lists of uris.
\<close>

datatype kval = KStr string | KList "string list"

type_synonym merge_handler = "pyrecord \<Rightarrow> pyrecord \<Rightarrow> error + bool \<times> pyrecord"

datatype call =
    GetByKey string
  | SetByKey string kval
  | SetRecords "merge_handler option" "pyrecord list"
  | ApplyCorrections "pyrecord list"

record 'db storage =
  kv :: "string \<rightharpoonup> kval"
  db :: 'db
  calls :: "call list"

text \<open>
  A repository is the dictionary \<^verbatim>\<open>repo\<close>: its \<^verbatim>\<open>uri\<close>, and its list of release
  descriptors, \<open>None\<close> when the dictionary has no \<^verbatim>\<open>releases\<close> key (what
  \<^verbatim>\<open>repo.get('releases')\<close> returns then). A release descriptor maps field names to
  strings.
\<close>

type_synonym release = "string \<rightharpoonup> string"

record repo =
  uri :: string
  repo_releases :: "release list option"

text \<open>
  A JSON corrections document, as \<^verbatim>\<open>utils.read_json_from_uri\<close> returns it: an object
  whose members are lists of entries.
\<close>

type_synonym json_doc = "(string \<times> pyrecord list) list"

text \<open>
  The collaborators, which this module only calls: the VCS and RCS adapters of a
  repository, the mailing list reader, the record processor, \<^verbatim>\<open>utils\<close>, the storage
  engine behind \<^verbatim>\<open>set_records\<close> and \<^verbatim>\<open>apply_corrections\<close>, and the order in
  which Python iterates over a set of branch names.
\<close>

record 'db env =
  quote_plus :: "string \<Rightarrow> string"
  vcs_fetch :: "repo \<Rightarrow> error option"
  rcs_setup :: "repo \<Rightarrow> error option"
  vcs_log :: "repo \<Rightarrow> string \<Rightarrow> kval option \<Rightarrow> stream"
  vcs_get_last_id :: "repo \<Rightarrow> string \<Rightarrow> error + kval"
  rcs_log :: "repo \<Rightarrow> string \<Rightarrow> kval option \<Rightarrow> stream"
  rcs_get_last_id :: "repo \<Rightarrow> string \<Rightarrow> error + kval"
  mls_log :: "string \<Rightarrow> 'db storage \<Rightarrow> stream"
  process :: "stream \<Rightarrow> stream"
  processor_update :: "error option"
  merge_records :: merge_handler
  load_repos :: "'db storage \<Rightarrow> repo list"
  read_json_from_uri :: "string \<Rightarrow> json_doc option"
  store_records :: "merge_handler option \<Rightarrow> pyrecord list \<Rightarrow> 'db \<Rightarrow> 'db"
  store_corrections :: "pyrecord list \<Rightarrow> 'db \<Rightarrow> 'db"
  set_order :: "string set \<Rightarrow> string list"

text \<open>
  A statement of the module runs on the storage and either returns a value or raises;
  the storage keeps what was done to it before the exception.
\<close>

type_synonym ('a, 'db) op = "'db storage \<Rightarrow> (error + 'a) \<times> 'db storage"

definition then_op :: "('a, 'db) op \<Rightarrow> ('a \<Rightarrow> ('b, 'db) op) \<Rightarrow> ('b, 'db) op" where
  "then_op m f st =
     (case m st of
        (Inl e, st') \<Rightarrow> (Inl e, st')
      | (Inr a, st') \<Rightarrow> f a st')"

definition lift :: "error + 'a \<Rightarrow> ('a, 'db) op" where
  "lift r st = (r, st)"

definition may_raise :: "error option \<Rightarrow> (unit, 'db) op" where
  "may_raise r st = (case r of None \<Rightarrow> (Inr (), st) | Some e \<Rightarrow> (Inl e, st))"

text \<open>A \<^verbatim>\<open>for\<close> loop over a list: the first exception ends it.\<close>

fun for_each :: "('a \<Rightarrow> (unit, 'db) op) \<Rightarrow> 'a list \<Rightarrow> (unit, 'db) op" where
  "for_each f [] st = (Inr (), st)"
| "for_each f (x # xs) st =
     (case f x st of
        (Inl e, st') \<Rightarrow> (Inl e, st')
      | (Inr u, st') \<Rightarrow> for_each f xs st')"

definition get_by_key :: "string \<Rightarrow> (kval option, 'db) op" where
  "get_by_key k st = (Inr (kv st k), st\<lparr>calls := calls st @ [GetByKey k]\<rparr>)"

definition set_by_key :: "string \<Rightarrow> kval \<Rightarrow> (unit, 'db) op" where
  "set_by_key k v st =
     (Inr (), st\<lparr>kv := (kv st)(k \<mapsto> v), calls := calls st @ [SetByKey k v]\<rparr>)"

text \<open>
  \<^verbatim>\<open>set_records\<close> iterates over the stream it is given and merges each record into the
  store. When the stream raises, the records it yielded before are merged and the
  exception leaves \<^verbatim>\<open>set_records\<close>: the call does not return.
\<close>

definition set_records :: "'db env \<Rightarrow> stream \<Rightarrow> merge_handler option \<Rightarrow> (unit, 'db) op" where
  "set_records env records_iterator merge_handler st =
     (let st' = st\<lparr>db := store_records env merge_handler (fst records_iterator) (db st)\<rparr>
      in case snd records_iterator of
           Some e \<Rightarrow> (Inl e, st')
         | None \<Rightarrow>
             (Inr (), st'\<lparr>calls := calls st' @ [SetRecords merge_handler (fst records_iterator)]\<rparr>))"

definition storage_apply_corrections :: "'db env \<Rightarrow> pyrecord list \<Rightarrow> (unit, 'db) op" where
  "storage_apply_corrections env cs st =
     (Inr (), st\<lparr>db := store_corrections env cs (db st),
                 calls := calls st @ [ApplyCorrections cs]\<rparr>)"

section \<open>\<^verbatim>\<open>process_repo\<close>\<close>

text \<open>
  \<^verbatim>\<open>
  branches = set(['master'])
  for release in repo.get('releases'):
      if 'branch' in release:
          branches.add(release['branch'])
  \<close>
  Iterating over \<^verbatim>\<open>None\<close> raises TypeError.
\<close>

definition add_release_branch :: "string set \<Rightarrow> release \<Rightarrow> string set" where
  "add_release_branch branches release =
     (case release ''branch'' of None \<Rightarrow> branches | Some b \<Rightarrow> insert b branches)"

definition resolve_branches :: "repo \<Rightarrow> error + string set" where
  "resolve_branches r =
     (case repo_releases r of
        None \<Rightarrow> Inl TypeError
      | Some rels \<Rightarrow> Inr (foldl add_release_branch {''master''} rels))"

definition vcs_key :: "'db env \<Rightarrow> string \<Rightarrow> string \<Rightarrow> string" where
  "vcs_key env u branch = ''vcs:'' @ (quote_plus env u @ '':'' @ branch)"

definition rcs_key :: "'db env \<Rightarrow> string \<Rightarrow> string \<Rightarrow> string" where
  "rcs_key env u branch = ''rcs:'' @ (quote_plus env u @ '':'' @ branch)"

text \<open>
  The streams handed to \<^verbatim>\<open>set_records\<close>: the adapter's log since the cursor, typed,
  then run through the record processor.
\<close>

definition commit_stream :: "'db env \<Rightarrow> repo \<Rightarrow> string \<Rightarrow> kval option \<Rightarrow> stream" where
  "commit_stream env r branch last_id =
     process env (record_typer (vcs_log env r branch last_id) ''commit'')"

definition review_stream :: "'db env \<Rightarrow> repo \<Rightarrow> string \<Rightarrow> kval option \<Rightarrow> stream" where
  "review_stream env r branch last_id =
     process env (record_typer (rcs_log env r branch last_id) ''review'')"

text \<open>The body of the loop over the branches, lines 97 to 108 and 112 to 123.\<close>

definition commit_phase :: "'db env \<Rightarrow> repo \<Rightarrow> string \<Rightarrow> (unit, 'db) op" where
  "commit_phase env r branch =
     then_op (get_by_key (vcs_key env (uri r) branch)) (\<lambda>last_id.
     then_op (set_records env (commit_stream env r branch last_id) (Some merge_commits)) (\<lambda>_.
     then_op (lift (vcs_get_last_id env r branch)) (\<lambda>last_id.
     set_by_key (vcs_key env (uri r) branch) last_id)))"

definition review_phase :: "'db env \<Rightarrow> repo \<Rightarrow> string \<Rightarrow> (unit, 'db) op" where
  "review_phase env r branch =
     then_op (get_by_key (rcs_key env (uri r) branch)) (\<lambda>last_id.
     then_op (set_records env (review_stream env r branch last_id)
                (Some (merge_records env))) (\<lambda>_.
     then_op (lift (rcs_get_last_id env r branch)) (\<lambda>last_id.
     set_by_key (rcs_key env (uri r) branch) last_id)))"

definition process_branch :: "'db env \<Rightarrow> repo \<Rightarrow> string \<Rightarrow> (unit, 'db) op" where
  "process_branch env r branch =
     then_op (commit_phase env r branch) (\<lambda>_. review_phase env r branch)"

definition process_repo :: "'db env \<Rightarrow> repo \<Rightarrow> (unit, 'db) op" where
  "process_repo env r =
     then_op (may_raise (vcs_fetch env r)) (\<lambda>_.
     then_op (may_raise (rcs_setup env r)) (\<lambda>_.
     then_op (lift (resolve_branches r)) (\<lambda>branches.
     for_each (process_branch env r) (set_order env branches))))"

section \<open>\<^verbatim>\<open>update_records\<close> and \<^verbatim>\<open>apply_corrections\<close>\<close>

definition process_mail_list :: "'db env \<Rightarrow> string \<Rightarrow> (unit, 'db) op" where
  "process_mail_list env u st =
     set_records env (process env (record_typer (mls_log env u st) ''email'')) None st"

text \<open>
  \<^verbatim>\<open>get_by_key('mail_lists') or []\<close>: an absent or empty value gives no mailing list; a
  string would be iterated character by character.
\<close>

definition or_empty :: "kval option \<Rightarrow> string list" where
  "or_empty v =
     (case v of
        None \<Rightarrow> []
      | Some (KList l) \<Rightarrow> l
      | Some (KStr s) \<Rightarrow> map (\<lambda>c. [c]) s)"

definition update_records :: "'db env \<Rightarrow> (unit, 'db) op" where
  "update_records env st =
     then_op (for_each (process_repo env) (load_repos env st)) (\<lambda>_.
     then_op (get_by_key ''mail_lists'') (\<lambda>mail_lists.
     then_op (for_each (process_mail_list env) (or_empty mail_lists)) (\<lambda>_.
     may_raise (processor_update env)))) st"

text \<open>
  \<^verbatim>\<open>
  corrections = utils.read_json_from_uri(uri)
  if not corrections:
      return
  valid_corrections = []
  for c in corrections['corrections']:
      if 'primary_key' in c:
          valid_corrections.append(c)
  runtime_storage_inst.apply_corrections(valid_corrections)
  \<close>
\<close>

definition append_if_valid :: "pyrecord list \<Rightarrow> pyrecord \<Rightarrow> pyrecord list" where
  "append_if_valid valid_corrections c =
     (if c ''primary_key'' \<noteq> None then valid_corrections @ [c] else valid_corrections)"

definition apply_corrections :: "'db env \<Rightarrow> string \<Rightarrow> (unit, 'db) op" where
  "apply_corrections env u st =
     (case read_json_from_uri env u of
        None \<Rightarrow> (Inr (), st)
      | Some corrections \<Rightarrow>
          if corrections = [] then (Inr (), st)
          else (case map_of corrections ''corrections'' of
                  None \<Rightarrow> (Inl (KeyError ''corrections''), st)
                | Some cs \<Rightarrow>
                    storage_apply_corrections env (foldl append_if_valid [] cs) st))"

section \<open>\<^verbatim>\<open>_read_official_programs_yaml\<close>\<close>

text \<open>
  A module group is a dictionary with the keys \<^verbatim>\<open>modules\<close> and \<^verbatim>\<open>releases\<close>
  from the start and \<^verbatim>\<open>tag\<close>, \<^verbatim>\<open>module_group_name\<close> and \<^verbatim>\<open>id\<close> once they are
  assigned. \<^verbatim>\<open>releases\<close> is a \<^verbatim>\<open>defaultdict(list)\<close> from release names to lists of
  module names.
\<close>

record module_group =
  modules :: "string list"
  releases :: "string \<rightharpoonup> string list"
  tag :: "string option"
  module_group_name :: "string option"
  group_id :: "string option"

type_synonym module_groups = "string \<rightharpoonup> module_group"

text \<open>
  The descriptor feed after \<^verbatim>\<open>yaml.safe_load\<close>: a mapping from program names to
  program descriptions, in the order \<^verbatim>\<open>six.iteritems\<close> visits them. A program has an
  optional \<^verbatim>\<open>codename\<close> and a list of \<^verbatim>\<open>projects\<close>; a project maps field names
  to strings.
\<close>

type_synonym module_desc = "string \<rightharpoonup> string"

record program_info =
  codename :: "string option"
  projects :: "module_desc list option"

type_synonym programs = "(string \<times> program_info) list"

text \<open>
  \<^verbatim>\<open>str.lower\<close>. Strings are lists of bytes, a character beyond ASCII being the
  bytes of its UTF-8 encoding. On a string of ASCII characters \<^verbatim>\<open>lower\<close> maps
  \<^verbatim>\<open>A\<close> to \<^verbatim>\<open>Z\<close> to \<^verbatim>\<open>a\<close> to \<^verbatim>\<open>z\<close> and leaves the rest; on a string with
  other characters it is the lower-casing of Unicode, which the model takes as the
  parameter \<open>unicode_lower\<close>.
\<close>

definition lower_char :: "char \<Rightarrow> char" where
  "lower_char c =
     (case map_of (zip ''ABCDEFGHIJKLMNOPQRSTUVWXYZ'' ''abcdefghijklmnopqrstuvwxyz'') c of
        None \<Rightarrow> c
      | Some l \<Rightarrow> l)"

definition is_ascii :: "char \<Rightarrow> bool" where
  "is_ascii c \<longleftrightarrow> \<not> digit7 c"

definition lower :: "(string \<Rightarrow> string) \<Rightarrow> string \<Rightarrow> string" where
  "lower unicode_lower s =
     (if list_all is_ascii s then map lower_char s else unicode_lower s)"

text \<open>\<^verbatim>\<open>str.split\<close> with a separator.\<close>

fun split :: "char \<Rightarrow> string \<Rightarrow> string list" where
  "split sep [] = [[]]"
| "split sep (c # cs) =
     (if c = sep then [] # split sep cs
      else (case split sep cs of
              [] \<Rightarrow> [[c]]
            | w # ws \<Rightarrow> (c # w) # ws))"

text \<open>
  \<^verbatim>\<open>module_groups[k]\<close> on the \<^verbatim>\<open>defaultdict\<close>: a key that is missing is created with
  \<^verbatim>\<open>{'modules': [], 'releases': defaultdict(list)}\<close>.
\<close>

definition new_group :: module_group where
  "new_group = \<lparr>modules = [], releases = Map.empty, tag = None,
                 module_group_name = None, group_id = None\<rparr>"

definition lookup_group :: "module_groups \<Rightarrow> string \<Rightarrow> module_group" where
  "lookup_group mg k = (case mg k of None \<Rightarrow> new_group | Some g \<Rightarrow> g)"

definition official_group :: "string \<Rightarrow> module_group" where
  "official_group k =
     new_group\<lparr>tag := Some ''project_type'', module_group_name := Some k\<rparr>"

definition initial_groups :: module_groups where
  "initial_groups =
     ((((Map.empty
        (''official-bootstrap'' \<mapsto> official_group ''official-bootstrap''))
        (''official-incubation'' \<mapsto> official_group ''official-incubation''))
        (''official-mature'' \<mapsto> official_group ''official-mature''))
        (''official-core'' \<mapsto> official_group ''official-core''))"

definition RELEASE_TAGS :: "string list" where
  "RELEASE_TAGS = [''bootstrapped-since'', ''incubated-since'', ''mature-since'', ''core-since'']"

text \<open>\<^verbatim>\<open>module_groups[k]['modules'].append(module_name)\<close>\<close>

definition append_module :: "module_groups \<Rightarrow> string \<Rightarrow> string \<Rightarrow> module_groups" where
  "append_module mg k module_name =
     (let g = lookup_group mg k in mg(k \<mapsto> g\<lparr>modules := modules g @ [module_name]\<rparr>))"

text \<open>\<^verbatim>\<open>module_groups[k]['releases'][release_name].append(module_name)\<close>\<close>

definition append_release ::
  "module_groups \<Rightarrow> string \<Rightarrow> string \<Rightarrow> string \<Rightarrow> module_groups" where
  "append_release mg k release_name module_name =
     (let g = lookup_group mg k;
          bucket = (case releases g release_name of None \<Rightarrow> [] | Some b \<Rightarrow> b)
      in mg(k \<mapsto> g\<lparr>releases := (releases g)(release_name \<mapsto> bucket @ [module_name])\<rparr>))"

text \<open>
  The \<^verbatim>\<open>if\<close>/\<^verbatim>\<open>elif\<close> chain of lines 223 to 230. \<^verbatim>\<open>module.get\<close> of a missing
  field is \<^verbatim>\<open>None\<close>, which no release name equals. The chain has no \<^verbatim>\<open>else\<close>: when
  no field matches, \<^verbatim>\<open>project_type\<close> keeps the value it had.
\<close>

definition next_project_type :: "module_desc \<Rightarrow> string \<Rightarrow> string \<Rightarrow> string" where
  "next_project_type m release_name project_type =
     (if Some release_name = m ''bootstrapped-since'' then ''official-bootstrap''
      else if Some release_name = m ''incubated-since'' then ''official-incubation''
      else if Some release_name = m ''mature-since'' then ''official-mature''
      else if Some release_name = m ''core-since'' then ''official-core''
      else project_type)"

text \<open>The loop over the release names, lines 221 to 233.\<close>

fun releases_loop ::
  "module_desc \<Rightarrow> string \<Rightarrow> string list \<Rightarrow> string \<Rightarrow> module_groups \<Rightarrow> module_groups" where
  "releases_loop m module_name [] project_type mg = mg"
| "releases_loop m module_name (release_name # rest) project_type mg =
     (let project_type' = next_project_type m release_name project_type
      in releases_loop m module_name rest project_type'
           (append_release mg project_type' release_name module_name))"

text \<open>\<^verbatim>\<open>module['repo'].split('/')[1]\<close>\<close>

definition module_short_name :: "module_desc \<Rightarrow> error + string" where
  "module_short_name m =
     (case m ''repo'' of
        None \<Rightarrow> Inl (KeyError ''repo'')
      | Some r \<Rightarrow>
          (case split (CHR ''/'') r of
             _ # n # _ \<Rightarrow> Inr n
           | _ \<Rightarrow> Inl IndexError))"

definition has_release_tag :: "module_desc \<Rightarrow> bool" where
  "has_release_tag m = list_ex (\<lambda>key. m key \<noteq> None) RELEASE_TAGS"

text \<open>The body of the loop over the projects of one program, lines 215 to 235.\<close>

definition process_module ::
  "(string \<Rightarrow> string) \<Rightarrow> string \<Rightarrow> string list \<Rightarrow> module_groups \<Rightarrow> module_desc \<Rightarrow> error + module_groups" where
  "process_module unicode_lower gid release_names mg m =
     (case module_short_name m of
        Inl e \<Rightarrow> Inl e
      | Inr module_name \<Rightarrow>
          (let mg1 = append_module mg gid module_name
           in if has_release_tag m
              then Inr (releases_loop m module_name (map (lower unicode_lower) release_names)
                          ''official-other'' mg1)
              else Inr (append_module mg1 ''other'' module_name)))"

fun process_modules ::
  "(string \<Rightarrow> string) \<Rightarrow> string \<Rightarrow> string list \<Rightarrow> module_groups \<Rightarrow> module_desc list \<Rightarrow> error + module_groups" where
  "process_modules unicode_lower gid release_names mg [] = Inr mg"
| "process_modules unicode_lower gid release_names mg (m # ms) =
     (case process_module unicode_lower gid release_names mg m of
        Inl e \<Rightarrow> Inl e
      | Inr mg' \<Rightarrow> process_modules unicode_lower gid release_names mg' ms)"

text \<open>Lines 206 to 209: the group id and the displayed name of a program.\<close>

definition program_group_id :: "(string \<Rightarrow> string) \<Rightarrow> string \<times> program_info \<Rightarrow> string" where
  "program_group_id unicode_lower p =
     (case codename (snd p) of
        None \<Rightarrow> lower unicode_lower (fst p)
      | Some c \<Rightarrow> lower unicode_lower c @ ''-group'')"

definition program_name :: "string \<times> program_info \<Rightarrow> string" where
  "program_name p =
     (case codename (snd p) of
        None \<Rightarrow> fst p
      | Some c \<Rightarrow> c @ '' ('' @ fst p @ '')'')"

definition process_program ::
  "(string \<Rightarrow> string) \<Rightarrow> string list \<Rightarrow> module_groups \<Rightarrow> string \<times> program_info \<Rightarrow> error + module_groups" where
  "process_program unicode_lower release_names mg p =
     (let gid = program_group_id unicode_lower p;
          g = lookup_group mg gid;
          mg1 = mg(gid \<mapsto> g\<lparr>module_group_name := Some (program_name p)\<rparr>);
          g1 = lookup_group mg1 gid;
          mg2 = mg1(gid \<mapsto> g1\<lparr>tag := Some ''program''\<rparr>)
      in case projects (snd p) of
           None \<Rightarrow> Inl (KeyError ''projects'')
         | Some ms \<Rightarrow> process_modules unicode_lower gid release_names mg2 ms)"

fun process_programs ::
  "(string \<Rightarrow> string) \<Rightarrow> string list \<Rightarrow> module_groups \<Rightarrow> programs \<Rightarrow> error + module_groups" where
  "process_programs unicode_lower release_names mg [] = Inr mg"
| "process_programs unicode_lower release_names mg (p # ps) =
     (case process_program unicode_lower release_names mg p of
        Inl e \<Rightarrow> Inl e
      | Inr mg' \<Rightarrow> process_programs unicode_lower release_names mg' ps)"

text \<open>Lines 238 and 239: every group gets its key as \<^verbatim>\<open>id\<close>.\<close>

definition set_ids :: "module_groups \<Rightarrow> module_groups" where
  "set_ids mg = (\<lambda>k. map_option (\<lambda>g. g\<lparr>group_id := Some k\<rparr>) (mg k))"

text \<open>
  The function takes what \<^verbatim>\<open>yaml.safe_load(utils.read_uri(program_list_uri))\<close> gave:
  \<open>None\<close> for an empty document, on which \<^verbatim>\<open>six.iteritems\<close> raises AttributeError.
\<close>

definition read_official_programs_yaml ::
  "(string \<Rightarrow> string) \<Rightarrow> programs option \<Rightarrow> string list \<Rightarrow> error + module_groups" where
  "read_official_programs_yaml unicode_lower content release_names =
     (case content of
        None \<Rightarrow> Inl AttributeError
      | Some ps \<Rightarrow>
          (case process_programs unicode_lower release_names initial_groups ps of
             Inl e \<Rightarrow> Inl e
           | Inr mg \<Rightarrow> Inr (set_ids mg)))"

section \<open>Predicates of the statements\<close>

text \<open>
  The calls \<open>pre\<close> made before a write of the cursor key \<open>k\<close> end with the
  \<^verbatim>\<open>set_records\<close> call that merged the stream the cursor belongs to: the commit stream of
  the branch for a \<^verbatim>\<open>vcs:\<close> key, the review stream for an \<^verbatim>\<open>rcs:\<close> key. The call is
  in the list only if it returned, so the stream did not raise.
\<close>

definition merged_before :: "'db env \<Rightarrow> repo \<Rightarrow> call list \<Rightarrow> string \<Rightarrow> bool" where
  "merged_before env r pre k \<longleftrightarrow>
     (\<forall>b. k = vcs_key env (uri r) b \<longrightarrow>
        (\<exists>pre' c. pre = pre' @ [SetRecords (Some merge_commits) (fst (commit_stream env r b c))] \<and>
                  snd (commit_stream env r b c) = None)) \<and>
     (\<forall>b. k = rcs_key env (uri r) b \<longrightarrow>
        (\<exists>pre' c. pre = pre' @ [SetRecords (Some (merge_records env))
                                  (fst (review_stream env r b c))] \<and>
                  snd (review_stream env r b c) = None))"

definition cursor_after_merge :: "'db env \<Rightarrow> repo \<Rightarrow> call list \<Rightarrow> bool" where
  "cursor_after_merge env r tr \<longleftrightarrow>
     (\<forall>pre k v post. tr = pre @ SetByKey k v # post \<longrightarrow> merged_before env r pre k)"

text \<open>The stored commit cursor of branch \<open>b\<close> is what the adapter gives as its last id.\<close>

definition cursor_at_head :: "'db env \<Rightarrow> repo \<Rightarrow> 'db storage \<Rightarrow> string \<Rightarrow> bool" where
  "cursor_at_head env r st b \<longleftrightarrow>
     (\<exists>v. vcs_get_last_id env r b = Inr v \<and> kv st (vcs_key env (uri r) b) = Some v)"

text \<open>
  Module \<open>n\<close> is in the release bucket \<open>release_name\<close> of group \<open>g\<close>; module \<open>n\<close> is in
  the module list of group \<open>g\<close>.
\<close>

definition in_bucket :: "module_groups \<Rightarrow> string \<Rightarrow> string \<Rightarrow> string \<Rightarrow> bool" where
  "in_bucket mg g release_name n =
     (case mg g of
        None \<Rightarrow> False
      | Some grp \<Rightarrow>
          (case releases grp release_name of
             None \<Rightarrow> False
           | Some b \<Rightarrow> n \<in> set b))"

definition in_modules :: "module_groups \<Rightarrow> string \<Rightarrow> string \<Rightarrow> bool" where
  "in_modules mg g n =
     (case mg g of
        None \<Rightarrow> False
      | Some grp \<Rightarrow> n \<in> set (modules grp))"

text \<open>
  The buckets the loop over the release names appends a module to: for each release, the
  group \<^verbatim>\<open>project_type\<close> stands at after the \<^verbatim>\<open>if\<close>/\<^verbatim>\<open>elif\<close> chain.
\<close>

fun release_targets :: "module_desc \<Rightarrow> string list \<Rightarrow> string \<Rightarrow> (string \<times> string) list" where
  "release_targets m [] project_type = []"
| "release_targets m (release_name # rest) project_type =
     (let project_type' = next_project_type m release_name project_type
      in (project_type', release_name) # release_targets m rest project_type')"

text \<open>All the projects of a feed, and the four fixed group ids.\<close>

definition feed_modules :: "programs \<Rightarrow> module_desc list" where
  "feed_modules ps =
     concat (map (\<lambda>p. case projects (snd p) of None \<Rightarrow> [] | Some ms \<Rightarrow> ms) ps)"

definition official_ids :: "string list" where
  "official_ids =
     [''official-bootstrap'', ''official-incubation'', ''official-mature'', ''official-core'']"

definition only_mature_since :: "string \<Rightarrow> module_desc \<Rightarrow> bool" where
  "only_mature_since release_name m \<longleftrightarrow>
     m ''mature-since'' = Some release_name \<and> m ''bootstrapped-since'' = None \<and>
     m ''incubated-since'' = None \<and> m ''core-since'' = None"

text \<open>
  Project \<open>m\<close> of the feed has the short name \<open>n\<close>, a release field, and the loop over
  the release names reaches the bucket \<open>release_name\<close> of group \<open>g\<close> for it.
\<close>

definition fills_bucket :: "(string \<Rightarrow> string) \<Rightarrow> string list \<Rightarrow> module_desc \<Rightarrow> string \<Rightarrow> string \<Rightarrow> string \<Rightarrow> bool" where
  "fills_bucket unicode_lower release_names m n g release_name \<longleftrightarrow>
     module_short_name m = Inr n \<and> has_release_tag m \<and>
     (g, release_name) \<in> set (release_targets m (map (lower unicode_lower) release_names) ''official-other'')"

text \<open>
  A feed the function accepts: every program has its \<^verbatim>\<open>projects\<close> and every project
  a \<^verbatim>\<open>repo\<close> with a slash in it.
\<close>

definition well_formed_feed :: "programs \<Rightarrow> bool" where
  "well_formed_feed ps \<longleftrightarrow>
     (\<forall>p \<in> set ps. projects (snd p) \<noteq> None) \<and>
     (\<forall>m \<in> set (feed_modules ps). \<not> isl (module_short_name m))"

text \<open>Group \<open>k\<close> exists and its \<^verbatim>\<open>tag\<close> is \<open>t\<close> (\<open>None\<close> when it has no tag).\<close>

definition has_tag :: "module_groups \<Rightarrow> string \<Rightarrow> string option \<Rightarrow> bool" where
  "has_tag mg k t \<longleftrightarrow> (\<exists>g. mg k = Some g \<and> tag g = t)"

section \<open>A small installation\<close>

text \<open>
  Two repositories, \<^verbatim>\<open>A\<close> with no release and \<^verbatim>\<open>B\<close> with a release on
  \<^verbatim>\<open>stable/kilo\<close> and a release without branch. Fetching \<^verbatim>\<open>A\<close> fails. The store
  counts the records it was given.
\<close>

definition repo_A :: repo where
  "repo_A = \<lparr>uri = ''A'', repo_releases = Some []\<rparr>"

definition repo_B :: repo where
  "repo_B = \<lparr>uri = ''B'',
             repo_releases = Some [[''branch'' \<mapsto> ''stable/kilo''], Map.empty]\<rparr>"

definition demo_corrections :: "pyrecord list" where
  "demo_corrections =
     [[''primary_key'' \<mapsto> PStr ''c1'', ''module'' \<mapsto> PStr ''nova''],
      [''module'' \<mapsto> PStr ''glance''],
      [''primary_key'' \<mapsto> PStr ''c3'']]"

definition demo_env :: "nat env" where
  "demo_env =
     \<lparr>quote_plus = (\<lambda>s. s),
      vcs_fetch = (\<lambda>r. if uri r = ''A'' then Some (SourceError ''fetch'') else None),
      rcs_setup = (\<lambda>r. None),
      vcs_log = (\<lambda>r b c. case c of
                   None \<Rightarrow> ([[''commit_id'' \<mapsto> PStr ''1f'']], None)
                 | Some _ \<Rightarrow> ([], None)),
      vcs_get_last_id = (\<lambda>r b. Inr (KStr ''1f'')),
      rcs_log = (\<lambda>r b c. ([], None)),
      rcs_get_last_id = (\<lambda>r b. Inr (KStr ''r7'')),
      mls_log = (\<lambda>u st. ([], None)),
      process = (\<lambda>s. s),
      processor_update = None,
      merge_records = (\<lambda>original new. Inr (True, original ++ new)),
      load_repos = (\<lambda>st. [repo_A, repo_B]),
      read_json_from_uri =
        (\<lambda>u. if u = ''corrections.json'' then Some [(''corrections'', demo_corrections)]
             else None),
      store_records = (\<lambda>h rs n. n + length rs),
      store_corrections = (\<lambda>cs n. n),
      set_order = (\<lambda>S. filter (\<lambda>b. b \<in> S) [''master'', ''stable/kilo''])\<rparr>"

definition demo_storage :: "nat storage" where
  "demo_storage = \<lparr>kv = Map.empty, db = 0, calls = []\<rparr>"

definition demo_feed :: programs where
  "demo_feed =
     [(''Compute'',
       \<lparr>codename = Some ''Nova'',
        projects = Some [[''repo'' \<mapsto> ''openstack/nova'', ''mature-since'' \<mapsto> ''kilo''],
                         [''repo'' \<mapsto> ''openstack/nova-specs'']]\<rparr>)]"

text \<open>
  The names of the installation are ASCII, so the lower-casing of other strings is never
  asked for; it is taken as the identity.
\<close>

definition demo_lower :: "string \<Rightarrow> string" where
  "demo_lower s = s"

text \<open>
  A feed with a program whose lower-cased name is the id of an official group, and no
  codename.
\<close>

definition retag_feed :: programs where
  "retag_feed = (''Official-Mature'', \<lparr>codename = None, projects = Some []\<rparr>) # demo_feed"

text \<open>The installation with \<^verbatim>\<open>B\<close> listed before and after \<^verbatim>\<open>A\<close>.\<close>

definition demo_env_BAB :: "nat env" where
  "demo_env_BAB = demo_env\<lparr>load_repos := (\<lambda>st. [repo_B, repo_A, repo_B])\<rparr>"

definition demo_releases :: "string list" where
  "demo_releases = [''icehouse'', ''juno'', ''kilo'']"

section \<open>Merging commits\<close>

lemma get_branches_update: "get_branches (r(''branches'' \<mapsto> v)) = Inr v"
  by (simp add: get_branches_def)

lemma merge_commits_sets:
  "get_branches original = Inr (PSet ob) \<Longrightarrow> get_branches new = Inr (PSet nb) \<Longrightarrow>
     merge_commits original new =
       (if nb \<subset> ob then Inr (False, original)
        else Inr (True, original(''branches'' \<mapsto> PSet (ob \<union> nb))))"
  by (simp add: merge_commits_def)

lemma merge_commits_proper_subset:
  "get_branches original = Inr (PSet ob) \<Longrightarrow> get_branches new = Inr (PSet nb) \<Longrightarrow> nb \<subset> ob \<Longrightarrow>
     merge_commits original new = Inr (False, original)"
  by (simp add: merge_commits_sets)

text \<open>
  Claim C2: when the incoming branch set is a subset of the existing one, proper or not,
  \<^verbatim>\<open>_merge_commits\<close> returns False and leaves the existing record as it is. The code
  tests \<^verbatim>\<open>new['branches'] < original['branches']\<close>, the proper subset, so the claim
  holds for a proper subset (\<open>merge_commits_proper_subset\<close>) and fails for equal sets:
  merging a commit known on \<^verbatim>\<open>master\<close> with the same commit on \<^verbatim>\<open>master\<close> leaves
  the record as it is but returns True, which makes \<^verbatim>\<open>set_records\<close> write it again.
\<close>

theorem merge_commits_equal_sets_updates:
  "merge_commits [''branches'' \<mapsto> PSet {''master''}] [''branches'' \<mapsto> PSet {''master''}]
     = Inr (True, [''branches'' \<mapsto> PSet {''master''}])"
  by (simp add: merge_commits_def get_branches_def)

text \<open>
  Two strings under \<^verbatim>\<open>branches\<close> are compared as strings: the function returns
  False when the incoming one is smaller and raises TypeError at \<^verbatim>\<open>|=\<close> otherwise.
\<close>

lemma merge_commits_strings:
  "merge_commits [''branches'' \<mapsto> PStr ''b''] [''branches'' \<mapsto> PStr ''a''] =
     Inr (False, [''branches'' \<mapsto> PStr ''b'']) \<and>
   merge_commits [''branches'' \<mapsto> PStr ''a''] [''branches'' \<mapsto> PStr ''b''] = Inl TypeError"
  by (simp add: merge_commits_def get_branches_def)

text \<open>
  Claim C3: after \<^verbatim>\<open>_merge_commits\<close> the branch set of the existing record is the union
  of the two branch sets, whichever branch is taken; it contains the set it had, no other
  field changes, and merging the same incoming record once more leaves the union in
  place.
\<close>

theorem merge_commits_union:
  assumes "get_branches original = Inr (PSet ob)" and "get_branches new = Inr (PSet nb)"
  shows "\<exists>updated original'.
           merge_commits original new = Inr (updated, original') \<and>
           get_branches original' = Inr (PSet (ob \<union> nb)) \<and>
           ob \<subseteq> ob \<union> nb \<and>
           (\<forall>k. k \<noteq> ''branches'' \<longrightarrow> original' k = original k) \<and>
           (\<exists>updated' original''.
              merge_commits original' new = Inr (updated', original'') \<and>
              get_branches original'' = Inr (PSet (ob \<union> nb)))"
proof (cases "nb \<subset> ob")
  case True
  then have u: "ob \<union> nb = ob" by auto
  from assms True have "merge_commits original new = Inr (False, original)"
    by (simp add: merge_commits_sets)
  with assms u show ?thesis by auto
next
  case False
  let ?o = "original(''branches'' \<mapsto> PSet (ob \<union> nb))"
  from assms False have 1: "merge_commits original new = Inr (True, ?o)"
    by (simp add: merge_commits_sets)
  have g: "get_branches ?o = Inr (PSet (ob \<union> nb))" by (rule get_branches_update)
  have u: "ob \<union> nb \<union> nb = ob \<union> nb" by auto
  from merge_commits_sets [OF g assms(2)]
  have "merge_commits ?o new =
      (if nb \<subset> ob \<union> nb then Inr (False, ?o)
       else Inr (True, ?o(''branches'' \<mapsto> PSet (ob \<union> nb))))"
    by (simp only: u)
  then have 2: "\<exists>updated' original''. merge_commits ?o new = Inr (updated', original'') \<and>
      get_branches original'' = Inr (PSet (ob \<union> nb))"
    by (cases "nb \<subset> ob \<union> nb") (auto simp add: get_branches_update)
  from 1 g 2 show ?thesis by auto
qed

text \<open>
  The run of the specification: \<^verbatim>\<open>{master}\<close>, then \<^verbatim>\<open>{master, stable/X}\<close>, then
  \<^verbatim>\<open>{master}\<close> again.
\<close>

theorem merge_commits_union_witness:
  "\<exists>u1 r1 u2 r2 u3 r3.
     merge_commits [''branches'' \<mapsto> PSet {}] [''branches'' \<mapsto> PSet {''master''}] = Inr (u1, r1) \<and>
     get_branches r1 = Inr (PSet {''master''}) \<and>
     merge_commits r1 [''branches'' \<mapsto> PSet {''master'', ''stable/X''}] = Inr (u2, r2) \<and>
     get_branches r2 = Inr (PSet {''master'', ''stable/X''}) \<and>
     merge_commits r2 [''branches'' \<mapsto> PSet {''master''}] = Inr (u3, r3) \<and>
     get_branches r3 = Inr (PSet {''master'', ''stable/X''})"
proof -
  let ?e = "[''branches'' \<mapsto> PSet {}]"
  let ?m = "[''branches'' \<mapsto> PSet {''master''}]"
  let ?s = "[''branches'' \<mapsto> PSet {''master'', ''stable/X''}]"
  have ge: "get_branches ?e = Inr (PSet {})" and gm: "get_branches ?m = Inr (PSet {''master''})"
    and gs: "get_branches ?s = Inr (PSet {''master'', ''stable/X''})"
    by (simp_all add: get_branches_def)
  from merge_commits_union [OF ge gm] obtain u1 r1 where
    1: "merge_commits ?e ?m = Inr (u1, r1)" and "get_branches r1 = Inr (PSet ({} \<union> {''master''}))"
    by blast
  then have g1: "get_branches r1 = Inr (PSet {''master''})" by simp
  from merge_commits_union [OF g1 gs] obtain u2 r2 where
    2: "merge_commits r1 ?s = Inr (u2, r2)"
    and "get_branches r2 = Inr (PSet ({''master''} \<union> {''master'', ''stable/X''}))"
    by blast
  then have g2: "get_branches r2 = Inr (PSet {''master'', ''stable/X''})" by auto
  from merge_commits_union [OF g2 gm] obtain u3 r3 where
    3: "merge_commits r2 ?m = Inr (u3, r3)"
    and "get_branches r3 = Inr (PSet ({''master'', ''stable/X''} \<union> {''master''}))"
    by blast
  then have g3: "get_branches r3 = Inr (PSet {''master'', ''stable/X''})"
    by auto
  from 1 g1 2 g2 3 g3 show ?thesis by blast
qed

section \<open>Typing a stream\<close>

lemma record_typer_map:
  "record_typer (rs, e) t = (map (set_record_type t) rs, e)"
  by (induction rs) simp_all

text \<open>
  Claim C9: \<^verbatim>\<open>_record_typer\<close> yields as many records as it reads, in the same order,
  each with \<^verbatim>\<open>record_type\<close> set to the label and every other field as it was; the
  way the input ends is the way the output ends. One step of the generator takes one
  record from the input and yields it tagged, so nothing is held back.
\<close>

theorem record_typer_pass_through:
  "length (fst (record_typer (rs, e) t)) = length rs \<and>
   snd (record_typer (rs, e) t) = e \<and>
   (\<forall>i < length rs.
      (fst (record_typer (rs, e) t) ! i) ''record_type'' = Some (PStr t) \<and>
      (\<forall>k. k \<noteq> ''record_type'' \<longrightarrow> (fst (record_typer (rs, e) t) ! i) k = (rs ! i) k)) \<and>
   record_typer_next (([], None), t) = None \<and>
   (\<forall>r. record_typer_next ((r # rs, e), t) = Some (Inr (set_record_type t r, ((rs, e), t))) \<and>
        record_typer (r # rs, e) t =
          (set_record_type t r # fst (record_typer (rs, e) t), snd (record_typer (rs, e) t)))"
  by (simp add: record_typer_map record_typer_next_def set_record_type_def)

theorem record_typer_pass_through_witness:
  "(fst (record_typer ([[''commit_id'' \<mapsto> PStr ''1f''], [''commit_id'' \<mapsto> PStr ''2a'']], None)
           ''commit'') ! 1) ''record_type'' = Some (PStr ''commit'') \<and>
   (fst (record_typer ([[''commit_id'' \<mapsto> PStr ''1f''], [''commit_id'' \<mapsto> PStr ''2a'']], None)
           ''commit'') ! 1) ''commit_id'' = Some (PStr ''2a'')"
proof -
  let ?rs = "[[''commit_id'' \<mapsto> PStr ''1f''], [''commit_id'' \<mapsto> PStr ''2a'']]"
  have i: "(1::nat) < length ?rs" and k: "''commit_id'' \<noteq> ''record_type''" by simp_all
  from record_typer_pass_through [of ?rs None "''commit''"] i k show ?thesis
    by (metis nth_Cons_0 nth_Cons_Suc One_nat_def fun_upd_same)
qed

section \<open>The order of merges and cursor writes\<close>

lemma vcs_key_inj: "vcs_key env u b = vcs_key env u b' \<longleftrightarrow> b = b'"
  by (simp add: vcs_key_def)

lemma rcs_key_inj: "rcs_key env u b = rcs_key env u b' \<longleftrightarrow> b = b'"
  by (simp add: rcs_key_def)

lemma vcs_key_neq_rcs_key: "vcs_key env u b \<noteq> rcs_key env u' b'"
  by (simp add: vcs_key_def rcs_key_def)

lemma merged_before_prepend: "merged_before env r us k \<Longrightarrow> merged_before env r (t @ us) k"
  unfolding merged_before_def by (metis append.assoc)

lemma merged_before_Nil:
  "merged_before env r [] k \<Longrightarrow> merged_before env r t k"
  unfolding merged_before_def by simp

lemma cursor_after_merge_Nil: "cursor_after_merge env r []"
  by (simp add: cursor_after_merge_def)

lemma cursor_after_merge_append:
  assumes "cursor_after_merge env r t1" and "cursor_after_merge env r t2"
  shows "cursor_after_merge env r (t1 @ t2)"
  unfolding cursor_after_merge_def
proof (intro allI impI)
  fix pre k v post
  assume eq: "t1 @ t2 = pre @ SetByKey k v # post"
  then obtain us where
    "(t1 = pre @ us \<and> us @ t2 = SetByKey k v # post) \<or> (t1 @ us = pre \<and> t2 = us @ SetByKey k v # post)"
    by (auto simp: append_eq_append_conv2)
  then show "merged_before env r pre k"
  proof
    assume a: "t1 = pre @ us \<and> us @ t2 = SetByKey k v # post"
    show ?thesis
    proof (cases us)
      case Nil
      with a have "t2 = [] @ SetByKey k v # post" and "pre = t1" by simp_all
      with assms(2) have "merged_before env r [] k"
        unfolding cursor_after_merge_def by blast
      then show ?thesis by (rule merged_before_Nil)
    next
      case (Cons x xs)
      with a have "t1 = pre @ SetByKey k v # xs" by simp
      with assms(1) show ?thesis unfolding cursor_after_merge_def by blast
    qed
  next
    assume a: "t1 @ us = pre \<and> t2 = us @ SetByKey k v # post"
    with assms(2) have "merged_before env r us k"
      unfolding cursor_after_merge_def by blast
    then have "merged_before env r (t1 @ us) k" by (rule merged_before_prepend)
    with a show ?thesis by simp
  qed
qed

lemma commit_phase_calls:
  assumes "commit_phase env r b st = (res, st')"
  shows "\<exists>tr. calls st' = calls st @ tr \<and> cursor_after_merge env r tr"
proof -
  let ?k = "vcs_key env (uri r) b"
  let ?s = "commit_stream env r b (kv st ?k)"
  let ?G = "GetByKey ?k"
  let ?M = "SetRecords (Some merge_commits) (fst ?s)"
  have c1: "cursor_after_merge env r [?G]"
    by (auto simp: cursor_after_merge_def Cons_eq_append_conv)
  have c2: "cursor_after_merge env r [?G, ?M]"
    by (auto simp: cursor_after_merge_def Cons_eq_append_conv)
  have c3: "snd ?s = None \<Longrightarrow> cursor_after_merge env r [?G, ?M, SetByKey ?k v]" for v
    by (auto simp: cursor_after_merge_def Cons_eq_append_conv merged_before_def
        vcs_key_inj vcs_key_neq_rcs_key)
  from assms c1 c2 c3 show ?thesis
    by (auto simp: commit_phase_def then_op_def get_by_key_def set_records_def lift_def
        set_by_key_def Let_def split: option.splits sum.splits)
qed


lemma review_phase_calls:
  assumes "review_phase env r b st = (res, st')"
  shows "\<exists>tr. calls st' = calls st @ tr \<and> cursor_after_merge env r tr"
proof -
  let ?k = "rcs_key env (uri r) b"
  let ?s = "review_stream env r b (kv st ?k)"
  let ?G = "GetByKey ?k"
  let ?M = "SetRecords (Some (merge_records env)) (fst ?s)"
  have c1: "cursor_after_merge env r [?G]"
    by (auto simp: cursor_after_merge_def Cons_eq_append_conv)
  have c2: "cursor_after_merge env r [?G, ?M]"
    by (auto simp: cursor_after_merge_def Cons_eq_append_conv)
  have c3: "snd ?s = None \<Longrightarrow> cursor_after_merge env r [?G, ?M, SetByKey ?k v]" for v
    by (auto simp: cursor_after_merge_def Cons_eq_append_conv merged_before_def
        rcs_key_inj vcs_key_neq_rcs_key [symmetric])
  from assms c1 c2 c3 show ?thesis
    by (auto simp: review_phase_def then_op_def get_by_key_def set_records_def lift_def
        set_by_key_def Let_def split: option.splits sum.splits)
qed

lemma process_branch_calls:
  assumes "process_branch env r b st = (res, st')"
  shows "\<exists>tr. calls st' = calls st @ tr \<and> cursor_after_merge env r tr"
proof (cases "commit_phase env r b st")
  case (Pair res1 st1)
  from commit_phase_calls [OF Pair] obtain t1
    where t1: "calls st1 = calls st @ t1" "cursor_after_merge env r t1" by blast
  show ?thesis
  proof (cases res1)
    case (Inl e)
    with assms Pair have "st' = st1" by (simp add: process_branch_def then_op_def)
    with t1 show ?thesis by blast
  next
    case (Inr u)
    with assms Pair have "review_phase env r b st1 = (res, st')"
      by (simp add: process_branch_def then_op_def)
    from review_phase_calls [OF this] obtain t2
      where t2: "calls st' = calls st1 @ t2" "cursor_after_merge env r t2" by blast
    from t1 t2 have "calls st' = calls st @ (t1 @ t2)" by simp
    moreover from t1 t2 have "cursor_after_merge env r (t1 @ t2)"
      by (simp add: cursor_after_merge_append)
    ultimately show ?thesis by blast
  qed
qed

lemma for_each_branch_calls:
  "for_each (process_branch env r) bs st = (res, st') \<Longrightarrow>
     \<exists>tr. calls st' = calls st @ tr \<and> cursor_after_merge env r tr"
proof (induction bs arbitrary: st)
  case Nil
  then show ?case by (simp add: cursor_after_merge_Nil)
next
  case (Cons b bs)
  obtain res1 st1 where p: "process_branch env r b st = (res1, st1)"
    by (cases "process_branch env r b st")
  from process_branch_calls [OF p] obtain t1
    where t1: "calls st1 = calls st @ t1" "cursor_after_merge env r t1" by blast
  show ?case
  proof (cases res1)
    case (Inl e)
    with Cons.prems p have "st' = st1" by simp
    with t1 show ?thesis by blast
  next
    case (Inr u)
    with Cons.prems p have "for_each (process_branch env r) bs st1 = (res, st')" by simp
    from Cons.IH [OF this] obtain t2
      where t2: "calls st' = calls st1 @ t2" "cursor_after_merge env r t2" by blast
    from t1 t2 have "calls st' = calls st @ (t1 @ t2)" by simp
    moreover from t1 t2 have "cursor_after_merge env r (t1 @ t2)"
      by (simp add: cursor_after_merge_append)
    ultimately show ?thesis by blast
  qed
qed

lemma process_repo_calls:
  assumes "process_repo env r st = (res, st')"
  shows "\<exists>tr. calls st' = calls st @ tr \<and> cursor_after_merge env r tr"
proof (cases "vcs_fetch env r = None \<and> rcs_setup env r = None \<and> (\<exists>bs. resolve_branches r = Inr bs)")
  case True
  then obtain bs where "resolve_branches r = Inr bs" by blast
  with True assms have "for_each (process_branch env r) (set_order env bs) st = (res, st')"
    by (simp add: process_repo_def then_op_def may_raise_def lift_def)
  then show ?thesis by (rule for_each_branch_calls)
next
  case False
  with assms have "st' = st"
    by (cases "resolve_branches r")
      (auto simp: process_repo_def then_op_def may_raise_def lift_def split: option.splits)
  then show ?thesis by (simp add: cursor_after_merge_Nil)
qed

text \<open>
  Claim C1: in the calls \<^verbatim>\<open>process_repo\<close> makes on the storage, whether it returns or
  raises, every write of a commit cursor \<^verbatim>\<open>vcs:<uri>:<branch>\<close> comes directly after
  the \<^verbatim>\<open>set_records\<close> call that merged the typed and processed commit stream of that
  branch and returned, and every write of a review cursor \<^verbatim>\<open>rcs:<uri>:<branch>\<close>
  directly after the \<^verbatim>\<open>set_records\<close> call that merged the review stream of that
  branch.
\<close>

theorem cursor_written_after_merge:
  assumes "process_repo env r st = (res, st')"
  shows "\<exists>new. calls st' = calls st @ new \<and>
     (\<forall>pre post b v. new = pre @ SetByKey (vcs_key env (uri r) b) v # post \<longrightarrow>
        (\<exists>pre' c. pre = pre' @ [SetRecords (Some merge_commits) (fst (commit_stream env r b c))] \<and>
                  snd (commit_stream env r b c) = None)) \<and>
     (\<forall>pre post b v. new = pre @ SetByKey (rcs_key env (uri r) b) v # post \<longrightarrow>
        (\<exists>pre' c. pre = pre' @ [SetRecords (Some (merge_records env)) (fst (review_stream env r b c))] \<and>
                  snd (review_stream env r b c) = None))"
proof -
  from process_repo_calls [OF assms] obtain tr
    where tr: "calls st' = calls st @ tr" "cursor_after_merge env r tr" by blast
  from tr(2) have "\<And>pre post k v. tr = pre @ SetByKey k v # post \<Longrightarrow> merged_before env r pre k"
    unfolding cursor_after_merge_def by blast
  then show ?thesis using tr(1) unfolding merged_before_def by blast
qed

section \<open>Corrections\<close>

lemma foldl_append_if_valid:
  "foldl append_if_valid acc cs = acc @ filter (\<lambda>c. c ''primary_key'' \<noteq> None) cs"
  by (induction cs arbitrary: acc) (simp_all add: append_if_valid_def)

text \<open>
  Claim C7: \<^verbatim>\<open>apply_corrections\<close> hands the storage the entries of the fetched list
  that have a \<^verbatim>\<open>primary_key\<close>, in their order, in one call that the other entries do
  not prevent; when nothing could be read, it returns with the storage as it was and no
  call made.
\<close>

theorem apply_corrections_filters:
  "(read_json_from_uri env u = Some doc \<and> doc \<noteq> [] \<and> map_of doc ''corrections'' = Some cs \<longrightarrow>
      apply_corrections env u st =
        (Inr (), st\<lparr>db := store_corrections env (filter (\<lambda>c. c ''primary_key'' \<noteq> None) cs) (db st),
                    calls := calls st @
                      [ApplyCorrections (filter (\<lambda>c. c ''primary_key'' \<noteq> None) cs)]\<rparr>)) \<and>
   (read_json_from_uri env u = None \<longrightarrow> apply_corrections env u st = (Inr (), st))"
  by (simp add: apply_corrections_def storage_apply_corrections_def foldl_append_if_valid)

theorem apply_corrections_filters_witness:
  "calls (snd (apply_corrections demo_env ''corrections.json'' demo_storage)) =
     [ApplyCorrections [[''primary_key'' \<mapsto> PStr ''c1'', ''module'' \<mapsto> PStr ''nova''],
                        [''primary_key'' \<mapsto> PStr ''c3'']]] \<and>
   apply_corrections demo_env ''missing.json'' demo_storage = (Inr (), demo_storage)"
proof -
  have r: "read_json_from_uri demo_env ''corrections.json'' = Some [(''corrections'', demo_corrections)]"
    and n: "[(''corrections'', demo_corrections)] \<noteq> []"
    and m: "map_of [(''corrections'', demo_corrections)] ''corrections'' = Some demo_corrections"
    and z: "read_json_from_uri demo_env ''missing.json'' = None"
    by (simp_all add: demo_env_def)
  from apply_corrections_filters
    [of demo_env "''corrections.json''" "[(''corrections'', demo_corrections)]" demo_corrections
      demo_storage] r n m
  have a: "calls (snd (apply_corrections demo_env ''corrections.json'' demo_storage)) =
      calls demo_storage @ [ApplyCorrections (filter (\<lambda>c. c ''primary_key'' \<noteq> None) demo_corrections)]"
    by simp
  from apply_corrections_filters [of demo_env "''missing.json''" "[]" "[]" demo_storage] z
  have b: "apply_corrections demo_env ''missing.json'' demo_storage = (Inr (), demo_storage)"
    by simp
  from a b show ?thesis by (simp add: demo_storage_def demo_corrections_def)
qed

section \<open>The branches of a repository\<close>

lemma resolve_branches_present:
  "repo_releases r = Some rels \<Longrightarrow>
     resolve_branches r = Inr ({''master''} \<union> {b. \<exists>rel \<in> set rels. rel ''branch'' = Some b})"
proof -
  have "foldl add_release_branch S rels = S \<union> {b. \<exists>rel \<in> set rels. rel ''branch'' = Some b}" for S
    by (induction rels arbitrary: S) (auto simp: add_release_branch_def split: option.splits)
  then show "repo_releases r = Some rels \<Longrightarrow> ?thesis" by (simp add: resolve_branches_def)
qed

lemma resolve_branches_example:
  "resolve_branches repo_B = Inr {''master'', ''stable/kilo''}"
  by (auto simp: resolve_branches_def repo_B_def add_release_branch_def)

text \<open>
  Claim C5: \<^verbatim>\<open>process_repo\<close> synchronizes \<^verbatim>\<open>master\<close> and the branch of every release
  descriptor that has one, and a repository that declares no releases is processed on
  \<^verbatim>\<open>master\<close> alone. With a \<^verbatim>\<open>releases\<close> list, empty or not, the branch set is the
  one claimed (\<open>resolve_branches_present\<close>). A repository dictionary without the
  \<^verbatim>\<open>releases\<close> key makes \<^verbatim>\<open>repo.get('releases')\<close> return \<^verbatim>\<open>None\<close>, and the loop
  over it raises TypeError before any branch is processed.
\<close>

theorem process_repo_without_releases_raises:
  "resolve_branches \<lparr>uri = ''B'', repo_releases = None\<rparr> = Inl TypeError \<and>
   process_repo demo_env \<lparr>uri = ''B'', repo_releases = None\<rparr> demo_storage =
     (Inl TypeError, demo_storage)"
  by (simp add: resolve_branches_def process_repo_def then_op_def may_raise_def lift_def
      demo_env_def)

section \<open>The synchronizer on the small installation\<close>

lemmas demo_simps = demo_env_def demo_storage_def repo_A_def repo_B_def
  process_repo_def process_branch_def commit_phase_def review_phase_def then_op_def
  may_raise_def lift_def resolve_branches_def add_release_branch_def get_by_key_def
  set_by_key_def set_records_def vcs_key_def rcs_key_def commit_stream_def
  review_stream_def set_record_type_def Let_def

lemma demo_B:
  "process_repo demo_env repo_B demo_storage =
     (Inr (),
      \<lparr>kv = [''vcs:B:master'' \<mapsto> KStr ''1f'', ''rcs:B:master'' \<mapsto> KStr ''r7'',
             ''vcs:B:stable/kilo'' \<mapsto> KStr ''1f'', ''rcs:B:stable/kilo'' \<mapsto> KStr ''r7''],
       db = 2,
       calls =
         [GetByKey ''vcs:B:master'',
          SetRecords (Some merge_commits)
            [[''commit_id'' \<mapsto> PStr ''1f'', ''record_type'' \<mapsto> PStr ''commit'']],
          SetByKey ''vcs:B:master'' (KStr ''1f''),
          GetByKey ''rcs:B:master'',
          SetRecords (Some (merge_records demo_env)) [],
          SetByKey ''rcs:B:master'' (KStr ''r7''),
          GetByKey ''vcs:B:stable/kilo'',
          SetRecords (Some merge_commits)
            [[''commit_id'' \<mapsto> PStr ''1f'', ''record_type'' \<mapsto> PStr ''commit'']],
          SetByKey ''vcs:B:stable/kilo'' (KStr ''1f''),
          GetByKey ''rcs:B:stable/kilo'',
          SetRecords (Some (merge_records demo_env)) [],
          SetByKey ''rcs:B:stable/kilo'' (KStr ''r7'')]\<rparr>)"
  by (simp add: demo_simps)

text \<open>
  On repository \<^verbatim>\<open>B\<close> the third call writes the commit cursor of \<^verbatim>\<open>master\<close>, and
  the two calls before it end with the merge of the commit stream of \<^verbatim>\<open>master\<close>.
\<close>

theorem cursor_written_after_merge_witness:
  "\<exists>res st' pre' c.
     process_repo demo_env repo_B demo_storage = (res, st') \<and>
     take 2 (calls st') =
       pre' @ [SetRecords (Some merge_commits) (fst (commit_stream demo_env repo_B ''master'' c))] \<and>
     snd (commit_stream demo_env repo_B ''master'' c) = None \<and>
     calls st' ! 2 = SetByKey (vcs_key demo_env (uri repo_B) ''master'') (KStr ''1f'')"
proof -
  have c0: "calls (snd (process_repo demo_env repo_B demo_storage)) =
      [GetByKey ''vcs:B:master'',
       SetRecords (Some merge_commits)
         [[''commit_id'' \<mapsto> PStr ''1f'', ''record_type'' \<mapsto> PStr ''commit'']]] @
      SetByKey (vcs_key demo_env (uri repo_B) ''master'') (KStr ''1f'') #
      [GetByKey ''rcs:B:master'',
       SetRecords (Some (merge_records demo_env)) [],
       SetByKey ''rcs:B:master'' (KStr ''r7''),
       GetByKey ''vcs:B:stable/kilo'',
       SetRecords (Some merge_commits)
         [[''commit_id'' \<mapsto> PStr ''1f'', ''record_type'' \<mapsto> PStr ''commit'']],
       SetByKey ''vcs:B:stable/kilo'' (KStr ''1f''),
       GetByKey ''rcs:B:stable/kilo'',
       SetRecords (Some (merge_records demo_env)) [],
       SetByKey ''rcs:B:stable/kilo'' (KStr ''r7'')]"
    (is "_ = ?pre @ ?w # ?post")
    by (simp add: demo_B) (simp add: vcs_key_def demo_env_def repo_B_def)
  obtain res st' where run: "process_repo demo_env repo_B demo_storage = (res, st')"
    by (cases "process_repo demo_env repo_B demo_storage")
  with c0 have c: "calls st' = ?pre @ ?w # ?post" by simp
  from cursor_written_after_merge [OF run] obtain new where
    n: "calls st' = calls demo_storage @ new"
    and m: "\<And>pre post b v. new = pre @ SetByKey (vcs_key demo_env (uri repo_B) b) v # post \<Longrightarrow>
       \<exists>pre' c. pre = pre' @ [SetRecords (Some merge_commits)
                                 (fst (commit_stream demo_env repo_B b c))] \<and>
                snd (commit_stream demo_env repo_B b c) = None"
    by blast
  from n c have "new = ?pre @ ?w # ?post" by (simp add: demo_storage_def)
  from m [OF this] obtain pre' c' where
    "?pre = pre' @ [SetRecords (Some merge_commits) (fst (commit_stream demo_env repo_B ''master'' c'))]"
    and "snd (commit_stream demo_env repo_B ''master'' c') = None"
    by blast
  moreover from c have "take 2 (calls st') = ?pre" and "calls st' ! 2 = ?w" by simp_all
  ultimately show ?thesis using run by metis
qed

section \<open>The commit cursor after the commit phase\<close>

lemma commit_phase_kv:
  "commit_phase env r b st = (res, st') \<Longrightarrow>
     (res = Inr () \<and>
      (\<exists>v. vcs_get_last_id env r b = Inr v \<and> kv st' = (kv st)(vcs_key env (uri r) b \<mapsto> v))) \<or>
     ((\<exists>e. res = Inl e) \<and> kv st' = kv st)"
  by (auto simp: commit_phase_def then_op_def get_by_key_def set_records_def lift_def
      set_by_key_def Let_def split: option.splits sum.splits)

lemma review_phase_kv:
  "review_phase env r b st = (res, st') \<Longrightarrow>
     kv st' = kv st \<or> (\<exists>v. kv st' = (kv st)(rcs_key env (uri r) b \<mapsto> v))"
  by (auto simp: review_phase_def then_op_def get_by_key_def set_records_def lift_def
      set_by_key_def Let_def split: option.splits sum.splits)

lemma process_branch_head:
  assumes "process_branch env r b st = (Inr (), st')"
  shows "cursor_at_head env r st' b \<and>
         (\<forall>b'. cursor_at_head env r st b' \<longrightarrow> cursor_at_head env r st' b')"
proof -
  obtain res1 st1 where c: "commit_phase env r b st = (res1, st1)"
    by (cases "commit_phase env r b st")
  with assms have res1: "res1 = Inr ()" and rv: "review_phase env r b st1 = (Inr (), st')"
    by (auto simp: process_branch_def then_op_def split: sum.splits)
  from commit_phase_kv [OF c] res1 obtain v where
    v: "vcs_get_last_id env r b = Inr v" "kv st1 = (kv st)(vcs_key env (uri r) b \<mapsto> v)"
    by auto
  from review_phase_kv [OF rv] have k: "\<And>b'. kv st' (vcs_key env (uri r) b') = kv st1 (vcs_key env (uri r) b')"
    by (auto simp: vcs_key_neq_rcs_key)
  show ?thesis
    using v k by (auto simp: cursor_at_head_def vcs_key_inj)
qed

lemma for_each_branch_head:
  "for_each (process_branch env r) bs st = (Inr (), st') \<Longrightarrow>
     (\<forall>b \<in> set bs. cursor_at_head env r st' b) \<and>
     (\<forall>b'. cursor_at_head env r st b' \<longrightarrow> cursor_at_head env r st' b')"
proof (induction bs arbitrary: st)
  case Nil
  then show ?case by simp
next
  case (Cons b bs)
  obtain res1 st1 where p: "process_branch env r b st = (res1, st1)"
    by (cases "process_branch env r b st")
  with Cons.prems have res1: "res1 = Inr ()"
    and rest: "for_each (process_branch env r) bs st1 = (Inr (), st')"
    by (auto split: sum.splits)
  from p res1 have "process_branch env r b st = (Inr (), st1)" by simp
  from process_branch_head [OF this] Cons.IH [OF rest] show ?case by auto
qed

text \<open>
  Claim C8: when \<^verbatim>\<open>process_repo\<close> returns, the cursor stored under
  \<^verbatim>\<open>vcs:<uri>:<branch>\<close> is, for every branch the loop went over, what the adapter's
  \<^verbatim>\<open>get_last_id(branch)\<close> returns. The write does not depend on the log: whenever
  the commit stream ends without raising, with records or with none, and the adapter gives
  a last id, the commit phase returns with that id stored.
\<close>

theorem commit_cursor_is_adapter_head:
  "(process_repo env r st = (Inr (), st') \<and> resolve_branches r = Inr bs \<and>
      b \<in> set (set_order env bs) \<longrightarrow>
      (\<exists>v. vcs_get_last_id env r b = Inr v \<and> kv st' (vcs_key env (uri r) b) = Some v)) \<and>
   (snd (commit_stream env r b (kv st (vcs_key env (uri r) b))) = None \<and>
      vcs_get_last_id env r b = Inr v \<longrightarrow>
      (\<exists>st''. commit_phase env r b st = (Inr (), st'') \<and>
              kv st'' (vcs_key env (uri r) b) = Some v))"
proof (intro conjI impI)
  assume a: "process_repo env r st = (Inr (), st') \<and> resolve_branches r = Inr bs \<and>
      b \<in> set (set_order env bs)"
  then have "for_each (process_branch env r) (set_order env bs) st = (Inr (), st')"
    by (auto simp: process_repo_def then_op_def may_raise_def lift_def split: option.splits)
  from for_each_branch_head [OF this] a have "cursor_at_head env r st' b" by blast
  then show "\<exists>v. vcs_get_last_id env r b = Inr v \<and> kv st' (vcs_key env (uri r) b) = Some v"
    by (simp add: cursor_at_head_def)
next
  assume "snd (commit_stream env r b (kv st (vcs_key env (uri r) b))) = None \<and>
      vcs_get_last_id env r b = Inr v"
  then show "\<exists>st''. commit_phase env r b st = (Inr (), st'') \<and>
              kv st'' (vcs_key env (uri r) b) = Some v"
    by (simp add: commit_phase_def then_op_def get_by_key_def set_records_def lift_def
        set_by_key_def Let_def)
qed

text \<open>
  On repository \<^verbatim>\<open>B\<close>: the cursor of \<^verbatim>\<open>stable/kilo\<close> after the whole pass, and
  the cursor of \<^verbatim>\<open>master\<close> refreshed from \<^verbatim>\<open>0c\<close> by a commit phase whose log is
  empty.
\<close>

theorem commit_cursor_is_adapter_head_witness:
  "kv (snd (process_repo demo_env repo_B demo_storage)) ''vcs:B:stable/kilo'' = Some (KStr ''1f'') \<and>
   fst (vcs_log demo_env repo_B ''master'' (Some (KStr ''0c''))) = [] \<and>
   (\<exists>st''. commit_phase demo_env repo_B ''master''
             \<lparr>kv = [''vcs:B:master'' \<mapsto> KStr ''0c''], db = 0, calls = []\<rparr> = (Inr (), st'') \<and>
           kv st'' ''vcs:B:master'' = Some (KStr ''1f''))"
proof -
  let ?st = "\<lparr>kv = [''vcs:B:master'' \<mapsto> KStr ''0c''], db = 0::nat, calls = []\<rparr>"
  obtain st' where run: "process_repo demo_env repo_B demo_storage = (Inr (), st')"
    using demo_B by simp
  have bs: "resolve_branches repo_B = Inr {''master'', ''stable/kilo''}"
    by (rule resolve_branches_example)
  have b: "''stable/kilo'' \<in> set (set_order demo_env {''master'', ''stable/kilo''})"
    by (simp add: demo_env_def)
  have k: "vcs_key demo_env (uri repo_B) b = ''vcs:B:'' @ b" for b
    by (simp add: vcs_key_def demo_env_def repo_B_def)
  have l: "vcs_get_last_id demo_env repo_B b = Inr (KStr ''1f'')" for b
    by (simp add: demo_env_def)
  have e: "fst (vcs_log demo_env repo_B ''master'' (Some (KStr ''0c''))) = []"
    by (simp add: demo_env_def)
  have s: "snd (commit_stream demo_env repo_B ''master''
                 (kv ?st (vcs_key demo_env (uri repo_B) ''master''))) = None"
    by (simp add: k commit_stream_def demo_env_def)
  from commit_cursor_is_adapter_head
    [of demo_env repo_B demo_storage st' "{''master'', ''stable/kilo''}" "''stable/kilo''"
      "KStr ''1f''"]
    run bs b l k
  have 1: "kv st' ''vcs:B:stable/kilo'' = Some (KStr ''1f'')" by simp
  from commit_cursor_is_adapter_head
    [of demo_env repo_B ?st ?st "{}" "''master''" "KStr ''1f''"] s l k
  have 2: "\<exists>st''. commit_phase demo_env repo_B ''master'' ?st = (Inr (), st'') \<and>
           kv st'' ''vcs:B:master'' = Some (KStr ''1f'')" by simp
  from 1 2 e run show ?thesis by simp
qed

section \<open>A failing repository in \<^verbatim>\<open>update_records\<close>\<close>

lemma for_each_append:
  "for_each f (xs @ ys) st =
     (case for_each f xs st of
        (Inl e, st') \<Rightarrow> (Inl e, st')
      | (Inr u, st') \<Rightarrow> for_each f ys st')"
  by (induction xs arbitrary: st) (auto split: prod.splits sum.splits)

text \<open>
  Claim C4 says that a repository whose fetch fails does not keep the other repositories
  of the cycle from advancing their cursors. \<^verbatim>\<open>update_records\<close> has no exception
  handler: with \<^verbatim>\<open>A\<close> failing before \<^verbatim>\<open>B\<close>, the cycle ends with the exception of
  \<^verbatim>\<open>A\<close> and the cursor of \<^verbatim>\<open>B\<close> is not written, although \<^verbatim>\<open>B\<close> on its own
  synchronizes and advances it.
\<close>

theorem update_records_stops_at_failure_counterexample:
  "update_records demo_env demo_storage = (Inl (SourceError ''fetch''), demo_storage) \<and>
   kv (snd (update_records demo_env demo_storage)) ''vcs:B:master'' = None \<and>
   fst (process_repo demo_env repo_B demo_storage) = Inr () \<and>
   kv (snd (process_repo demo_env repo_B demo_storage)) ''vcs:B:master'' = Some (KStr ''1f'')"
proof -
  have a: "process_repo demo_env repo_A demo_storage = (Inl (SourceError ''fetch''), demo_storage)"
    by (simp add: process_repo_def then_op_def may_raise_def demo_env_def repo_A_def)
  have l: "load_repos demo_env demo_storage = [repo_A, repo_B]"
    by (simp add: demo_env_def)
  have u: "update_records demo_env demo_storage = (Inl (SourceError ''fetch''), demo_storage)"
    by (simp add: update_records_def then_op_def l a)
  show ?thesis by (simp add: u demo_B) (simp add: demo_storage_def)
qed

text \<open>
  Claim C4, amended: the first repository whose pass raises ends the cycle.
  \<^verbatim>\<open>update_records\<close> raises the same exception and leaves the storage as that pass left
  it: the repositories before it in the list have been synchronized, and no repository
  after it, no mailing list and not the record processor's \<^verbatim>\<open>update\<close> is run.
\<close>

theorem update_records_first_failure:
  assumes "load_repos env st = before @ r # after"
    and "for_each (process_repo env) before st = (Inr (), st1)"
    and "process_repo env r st1 = (Inl e, st2)"
  shows "update_records env st = (Inl e, st2)"
  using assms by (simp add: update_records_def then_op_def for_each_append)

lemma set_records_load_repos:
  "set_records (env\<lparr>load_repos := f\<rparr>) records_iterator h = set_records env records_iterator h"
  by (rule ext) (simp add: set_records_def)

lemma process_repo_load_repos:
  "process_repo (env\<lparr>load_repos := f\<rparr>) r st = process_repo env r st"
proof -
  have "process_branch (env\<lparr>load_repos := f\<rparr>) r = process_branch env r"
    by (rule ext)
      (simp add: process_branch_def commit_phase_def review_phase_def
        set_records_load_repos vcs_key_def rcs_key_def commit_stream_def review_stream_def)
  then show ?thesis by (simp add: process_repo_def)
qed

theorem update_records_first_failure_witness:
  "load_repos demo_env_BAB demo_storage = [repo_B] @ repo_A # [repo_B] \<and>
   update_records demo_env_BAB demo_storage =
     (Inl (SourceError ''fetch''), snd (process_repo demo_env_BAB repo_B demo_storage)) \<and>
   kv (snd (update_records demo_env_BAB demo_storage)) ''vcs:B:master'' = Some (KStr ''1f'') \<and>
   length (calls (snd (update_records demo_env_BAB demo_storage))) = 12"
proof -
  have b: "process_repo demo_env_BAB r st = process_repo demo_env r st" for r st
    unfolding demo_env_BAB_def by (rule process_repo_load_repos)
  obtain st1 where b1: "process_repo demo_env_BAB repo_B demo_storage = (Inr (), st1)"
    unfolding b using demo_B by simp
  then have s1: "snd (process_repo demo_env_BAB repo_B demo_storage) = st1" by simp
  from b1 have k: "kv st1 ''vcs:B:master'' = Some (KStr ''1f'')"
    and n: "length (calls st1) = 12"
    unfolding b demo_B by auto
  have l: "load_repos demo_env_BAB demo_storage = [repo_B] @ repo_A # [repo_B]"
    by (simp add: demo_env_BAB_def)
  have f: "for_each (process_repo demo_env_BAB) [repo_B] demo_storage = (Inr (), st1)"
    by (simp add: b1)
  have "process_repo demo_env repo_A st1 = (Inl (SourceError ''fetch''), st1)"
    by (simp add: process_repo_def then_op_def may_raise_def demo_env_def repo_A_def)
  then have a: "process_repo demo_env_BAB repo_A st1 = (Inl (SourceError ''fetch''), st1)"
    unfolding b .
  from update_records_first_failure [OF l f a]
  have u: "update_records demo_env_BAB demo_storage = (Inl (SourceError ''fetch''), st1)" .
  from l u k n s1 show ?thesis by simp
qed

section \<open>The buckets and module lists of the taxonomy\<close>

lemma in_bucket_append_release:
  "in_bucket (append_release mg k r n') g r' n \<longleftrightarrow>
     in_bucket mg g r' n \<or> (g = k \<and> r' = r \<and> n = n')"
  by (auto simp: in_bucket_def append_release_def lookup_group_def new_group_def Let_def
      split: option.splits)

lemma in_bucket_append_module:
  "in_bucket (append_module mg k n') g r n \<longleftrightarrow> in_bucket mg g r n"
  by (auto simp: in_bucket_def append_module_def lookup_group_def new_group_def Let_def
      split: option.splits)

lemma in_modules_append_release:
  "in_modules (append_release mg k r n') g n \<longleftrightarrow> in_modules mg g n"
  by (auto simp: in_modules_def append_release_def lookup_group_def new_group_def Let_def
      split: option.splits)

lemma in_modules_append_module:
  "in_modules (append_module mg k n') g n \<longleftrightarrow> in_modules mg g n \<or> (g = k \<and> n = n')"
  by (auto simp: in_modules_def append_module_def lookup_group_def new_group_def Let_def
      split: option.splits)

lemma in_bucket_releases_loop:
  "in_bucket (releases_loop m n' rs pt mg) g r n \<longleftrightarrow>
     in_bucket mg g r n \<or> (n = n' \<and> (g, r) \<in> set (release_targets m rs pt))"
  by (induction rs arbitrary: pt mg) (auto simp: Let_def in_bucket_append_release)

lemma in_modules_releases_loop:
  "in_modules (releases_loop m n' rs pt mg) g n \<longleftrightarrow> in_modules mg g n"
  by (induction rs arbitrary: pt mg) (auto simp: Let_def in_modules_append_release)

lemma in_bucket_process_module:
  "process_module ul gid rels mg m = Inr mg' \<Longrightarrow>
     in_bucket mg' g r n \<longleftrightarrow> in_bucket mg g r n \<or> fills_bucket ul rels m n g r"
  by (auto simp: process_module_def fills_bucket_def Let_def in_bucket_releases_loop
      in_bucket_append_module split: sum.splits if_splits)

lemma in_modules_process_module:
  "process_module ul gid rels mg m = Inr mg' \<Longrightarrow>
     in_modules mg' g n \<longleftrightarrow>
       in_modules mg g n \<or>
       (module_short_name m = Inr n \<and> (g = gid \<or> (\<not> has_release_tag m \<and> g = ''other'')))"
  by (auto simp: process_module_def Let_def in_modules_releases_loop
      in_modules_append_module split: sum.splits if_splits)

lemma in_bucket_process_modules:
  "process_modules ul gid rels mg ms = Inr mg' \<Longrightarrow>
     in_bucket mg' g r n \<longleftrightarrow> in_bucket mg g r n \<or> (\<exists>m \<in> set ms. fills_bucket ul rels m n g r)"
proof (induction ms arbitrary: mg)
  case Nil
  then show ?case by simp
next
  case (Cons m ms)
  then obtain mg1 where 1: "process_module ul gid rels mg m = Inr mg1"
    and 2: "process_modules ul gid rels mg1 ms = Inr mg'"
    by (auto split: sum.splits)
  from Cons.IH [OF 2] in_bucket_process_module [OF 1] show ?case by auto
qed

lemma in_modules_process_modules:
  "process_modules ul gid rels mg ms = Inr mg' \<Longrightarrow>
     in_modules mg' g n \<longleftrightarrow>
       in_modules mg g n \<or>
       (\<exists>m \<in> set ms. module_short_name m = Inr n \<and>
                       (g = gid \<or> (\<not> has_release_tag m \<and> g = ''other'')))"
proof (induction ms arbitrary: mg)
  case Nil
  then show ?case by simp
next
  case (Cons m ms)
  then obtain mg1 where 1: "process_module ul gid rels mg m = Inr mg1"
    and 2: "process_modules ul gid rels mg1 ms = Inr mg'"
    by (auto split: sum.splits)
  from Cons.IH [OF 2] in_modules_process_module [OF 1] show ?case by auto
qed

lemma in_bucket_set_field:
  "in_bucket (mg(k \<mapsto> (lookup_group mg k)\<lparr>tag := t\<rparr>)) g r n \<longleftrightarrow> in_bucket mg g r n"
  "in_bucket (mg(k \<mapsto> (lookup_group mg k)\<lparr>module_group_name := t\<rparr>)) g r n \<longleftrightarrow> in_bucket mg g r n"
  by (auto simp: in_bucket_def lookup_group_def new_group_def split: option.splits)

lemma in_modules_set_field:
  "in_modules (mg(k \<mapsto> (lookup_group mg k)\<lparr>tag := t\<rparr>)) g n \<longleftrightarrow> in_modules mg g n"
  "in_modules (mg(k \<mapsto> (lookup_group mg k)\<lparr>module_group_name := t\<rparr>)) g n \<longleftrightarrow> in_modules mg g n"
  by (auto simp: in_modules_def lookup_group_def new_group_def split: option.splits)

lemma process_program_projects:
  "process_program ul rels mg p = Inr mg' \<Longrightarrow> \<exists>ms. projects (snd p) = Some ms"
  by (auto simp: process_program_def Let_def split: option.splits)

lemma in_bucket_process_program:
  assumes "process_program ul rels mg p = Inr mg'" and "projects (snd p) = Some ms"
  shows "in_bucket mg' g r n \<longleftrightarrow> in_bucket mg g r n \<or> (\<exists>m \<in> set ms. fills_bucket ul rels m n g r)"
proof -
  let ?gid = "program_group_id ul p"
  let ?mg1 = "mg(?gid \<mapsto> (lookup_group mg ?gid)\<lparr>module_group_name := Some (program_name p)\<rparr>)"
  let ?mg2 = "?mg1(?gid \<mapsto> (lookup_group ?mg1 ?gid)\<lparr>tag := Some ''program''\<rparr>)"
  from assms have "process_modules ul ?gid rels ?mg2 ms = Inr mg'"
    by (simp add: process_program_def Let_def)
  from in_bucket_process_modules [OF this]
  show ?thesis by (simp only: in_bucket_set_field)
qed

lemma in_modules_process_program:
  assumes "process_program ul rels mg p = Inr mg'" and "projects (snd p) = Some ms"
  shows "in_modules mg' g n \<longleftrightarrow>
           in_modules mg g n \<or>
           (\<exists>m \<in> set ms. module_short_name m = Inr n \<and>
                (g = program_group_id ul p \<or> (\<not> has_release_tag m \<and> g = ''other'')))"
proof -
  let ?gid = "program_group_id ul p"
  let ?mg1 = "mg(?gid \<mapsto> (lookup_group mg ?gid)\<lparr>module_group_name := Some (program_name p)\<rparr>)"
  let ?mg2 = "?mg1(?gid \<mapsto> (lookup_group ?mg1 ?gid)\<lparr>tag := Some ''program''\<rparr>)"
  from assms have "process_modules ul ?gid rels ?mg2 ms = Inr mg'"
    by (simp add: process_program_def Let_def)
  from in_modules_process_modules [OF this]
  show ?thesis by (simp only: in_modules_set_field)
qed

lemma in_bucket_process_programs:
  "process_programs ul rels mg ps = Inr mg' \<Longrightarrow>
     in_bucket mg' g r n \<longleftrightarrow>
       in_bucket mg g r n \<or> (\<exists>m \<in> set (feed_modules ps). fills_bucket ul rels m n g r)"
proof (induction ps arbitrary: mg)
  case Nil
  then show ?case by (simp add: feed_modules_def)
next
  case (Cons p ps)
  then obtain mg1 where 1: "process_program ul rels mg p = Inr mg1"
    and 2: "process_programs ul rels mg1 ps = Inr mg'"
    by (auto split: sum.splits)
  from process_program_projects [OF 1] obtain ms where ms: "projects (snd p) = Some ms" ..
  then have f: "set (feed_modules (p # ps)) = set ms \<union> set (feed_modules ps)"
    by (simp add: feed_modules_def)
  from Cons.IH [OF 2] in_bucket_process_program [OF 1 ms] show ?case
    unfolding f by auto
qed

lemma in_modules_other_process_programs:
  "process_programs ul rels mg ps = Inr mg' \<Longrightarrow>
     (in_modules mg ''other'' n \<longrightarrow> in_modules mg' ''other'' n) \<and>
     (\<forall>m \<in> set (feed_modules ps). module_short_name m = Inr n \<and> \<not> has_release_tag m \<longrightarrow>
        in_modules mg' ''other'' n)"
proof (induction ps arbitrary: mg)
  case Nil
  then show ?case by (simp add: feed_modules_def)
next
  case (Cons p ps)
  then obtain mg1 where 1: "process_program ul rels mg p = Inr mg1"
    and 2: "process_programs ul rels mg1 ps = Inr mg'"
    by (auto split: sum.splits)
  from process_program_projects [OF 1] obtain ms where ms: "projects (snd p) = Some ms" ..
  then have f: "set (feed_modules (p # ps)) = set ms \<union> set (feed_modules ps)"
    by (simp add: feed_modules_def)
  from Cons.IH [OF 2] in_modules_process_program [OF 1 ms] show ?case
    unfolding f by auto
qed

lemma in_bucket_set_ids: "in_bucket (set_ids mg) g r n \<longleftrightarrow> in_bucket mg g r n"
  by (auto simp: in_bucket_def set_ids_def split: option.splits)

lemma in_modules_set_ids: "in_modules (set_ids mg) g n \<longleftrightarrow> in_modules mg g n"
  by (auto simp: in_modules_def set_ids_def split: option.splits)

lemma in_bucket_initial_groups: "\<not> in_bucket initial_groups g r n"
  by (simp add: in_bucket_def initial_groups_def official_group_def new_group_def)

lemma buckets_of_feed:
  assumes "read_official_programs_yaml ul (Some ps) rels = Inr mg"
  shows "in_bucket mg g r n \<longleftrightarrow> (\<exists>m \<in> set (feed_modules ps). fills_bucket ul rels m n g r)"
proof -
  from assms obtain mg0 where 0: "process_programs ul rels initial_groups ps = Inr mg0"
    and mg: "mg = set_ids mg0"
    by (auto simp: read_official_programs_yaml_def split: sum.splits)
  from in_bucket_process_programs [OF 0] show ?thesis
    by (simp add: mg in_bucket_set_ids in_bucket_initial_groups)
qed

lemma other_modules_of_feed:
  assumes "read_official_programs_yaml ul (Some ps) rels = Inr mg"
    and "m \<in> set (feed_modules ps)" and "module_short_name m = Inr n"
    and "\<not> has_release_tag m"
  shows "in_modules mg ''other'' n"
proof -
  from assms obtain mg0 where 0: "process_programs ul rels initial_groups ps = Inr mg0"
    and mg: "mg = set_ids mg0"
    by (auto simp: read_official_programs_yaml_def split: sum.splits)
  from in_modules_other_process_programs [OF 0] assms(2-4) show ?thesis
    by (auto simp: mg in_modules_set_ids)
qed

lemma only_mature_since_kilo_targets:
  assumes "only_mature_since ''kilo'' m"
  shows "has_release_tag m"
    and "release_targets m (map (lower ul) demo_releases) ''official-other'' =
           [(''official-other'', ''icehouse''), (''official-other'', ''juno''),
            (''official-mature'', ''kilo'')]"
proof -
  have l: "map (lower ul) demo_releases = [''icehouse'', ''juno'', ''kilo'']"
    by (simp add: demo_releases_def lower_def lower_char_def is_ascii_def)
  from assms show "has_release_tag m"
    by (simp add: only_mature_since_def has_release_tag_def RELEASE_TAGS_def)
  from assms show "release_targets m (map (lower ul) demo_releases) ''official-other'' =
           [(''official-other'', ''icehouse''), (''official-other'', ''juno''),
            (''official-mature'', ''kilo'')]"
    unfolding l by (simp add: only_mature_since_def next_project_type_def Let_def)
qed

lemma process_modules_succeeds:
  "\<forall>m \<in> set ms. \<not> isl (module_short_name m) \<Longrightarrow> \<exists>mg'. process_modules ul gid rels mg ms = Inr mg'"
proof (induction ms arbitrary: mg)
  case Nil
  then show ?case by simp
next
  case (Cons m ms)
  then obtain n where "module_short_name m = Inr n" by (cases "module_short_name m") auto
  then obtain mg1 where "process_module ul gid rels mg m = Inr mg1"
    by (cases "has_release_tag m") (simp_all add: process_module_def Let_def)
  with Cons show ?case by simp
qed

lemma process_programs_succeeds:
  "well_formed_feed ps \<Longrightarrow> \<exists>mg'. process_programs ul rels mg ps = Inr mg'"
proof (induction ps arbitrary: mg)
  case Nil
  then show ?case by simp
next
  case (Cons p ps)
  then obtain ms where ms: "projects (snd p) = Some ms"
    by (auto simp: well_formed_feed_def)
  with Cons.prems have "\<forall>m \<in> set ms. \<not> isl (module_short_name m)"
    and wf: "well_formed_feed ps"
    by (auto simp: well_formed_feed_def feed_modules_def)
  then obtain mg1 where "process_program ul rels mg p = Inr mg1"
    using ms process_modules_succeeds [of ms ul "program_group_id ul p" rels]
    by (simp add: process_program_def Let_def) blast
  with Cons.IH [OF wf] show ?case by simp
qed

lemma read_official_programs_yaml_succeeds:
  "well_formed_feed ps \<Longrightarrow> \<not> isl (read_official_programs_yaml ul (Some ps) rels)"
  using process_programs_succeeds [of ps ul rels initial_groups]
  by (auto simp: read_official_programs_yaml_def)

lemma demo_feed_modules:
  "feed_modules demo_feed =
     [[''repo'' \<mapsto> ''openstack/nova'', ''mature-since'' \<mapsto> ''kilo''],
      [''repo'' \<mapsto> ''openstack/nova-specs'']]"
  by (simp add: feed_modules_def demo_feed_def)

lemma demo_short_names:
  "module_short_name [''repo'' \<mapsto> ''openstack/nova'', ''mature-since'' \<mapsto> ''kilo''] = Inr ''nova''"
  "module_short_name [''repo'' \<mapsto> ''openstack/nova-specs''] = Inr ''nova-specs''"
  by (simp_all add: module_short_name_def)

lemma demo_feed_well_formed: "well_formed_feed demo_feed"
  unfolding well_formed_feed_def demo_feed_modules
  by (simp add: demo_short_names) (simp add: demo_feed_def)

text \<open>
  Claim C6 says that a module with \<^verbatim>\<open>mature-since: kilo\<close> is in the \<^verbatim>\<open>kilo\<close> bucket of
  \<^verbatim>\<open>official-mature\<close> and in no other release bucket of any group. The loop appends
  the module once for every release name, to the group \<^verbatim>\<open>project_type\<close> stands at,
  which is \<^verbatim>\<open>official-other\<close> until a status field matches: the module is also in
  the \<^verbatim>\<open>icehouse\<close> and \<^verbatim>\<open>juno\<close> buckets of \<^verbatim>\<open>official-other\<close>.
\<close>

theorem mature_module_in_other_buckets_counterexample:
  "\<not> isl (read_official_programs_yaml demo_lower (Some demo_feed) demo_releases) \<and>
   in_bucket (projr (read_official_programs_yaml demo_lower (Some demo_feed) demo_releases))
     ''official-mature'' ''kilo'' ''nova'' \<and>
   in_bucket (projr (read_official_programs_yaml demo_lower (Some demo_feed) demo_releases))
     ''official-other'' ''icehouse'' ''nova''"
proof -
  let ?res = "read_official_programs_yaml demo_lower (Some demo_feed) demo_releases"
  let ?m = "[''repo'' \<mapsto> ''openstack/nova'', ''mature-since'' \<mapsto> ''kilo'']"
  have ok: "\<not> isl ?res"
    by (rule read_official_programs_yaml_succeeds [OF demo_feed_well_formed])
  then have r: "?res = Inr (projr ?res)" by (cases ?res) simp_all
  have "only_mature_since ''kilo'' ?m" by (simp add: only_mature_since_def)
  then have "fills_bucket demo_lower demo_releases ?m ''nova'' ''official-mature'' ''kilo''"
    and "fills_bucket demo_lower demo_releases ?m ''nova'' ''official-other'' ''icehouse''"
    by (simp_all add: fills_bucket_def only_mature_since_kilo_targets demo_short_names)
  with ok show ?thesis
    unfolding buckets_of_feed [OF r] demo_feed_modules by simp
qed

text \<open>
  Claim C6, amended: with the release list \<^verbatim>\<open>[icehouse, juno, kilo]\<close>, a module name
  whose feed entries have \<^verbatim>\<open>mature-since: kilo\<close> and none of the other three status
  fields is in the \<^verbatim>\<open>kilo\<close> bucket of \<^verbatim>\<open>official-mature\<close>, in the \<^verbatim>\<open>icehouse\<close>
  and \<^verbatim>\<open>juno\<close> buckets of the group \<^verbatim>\<open>official-other\<close>, and in no other release
  bucket of any group; a module name whose entries have none of the four status fields is
  in the module list of \<^verbatim>\<open>other\<close> and in no release bucket of any group.
\<close>

theorem mature_since_kilo_buckets:
  assumes "read_official_programs_yaml ul (Some ps) demo_releases = Inr mg"
    and "m \<in> set (feed_modules ps)" and "module_short_name m = Inr n"
  shows "((\<forall>m' \<in> set (feed_modules ps).
             module_short_name m' = Inr n \<longrightarrow> only_mature_since ''kilo'' m') \<longrightarrow>
           in_bucket mg ''official-mature'' ''kilo'' n \<and>
           in_bucket mg ''official-other'' ''icehouse'' n \<and>
           in_bucket mg ''official-other'' ''juno'' n \<and>
           (\<forall>g r. in_bucket mg g r n \<longrightarrow>
              (g, r) \<in> {(''official-mature'', ''kilo''), (''official-other'', ''icehouse''),
                        (''official-other'', ''juno'')})) \<and>
         ((\<forall>m' \<in> set (feed_modules ps).
             module_short_name m' = Inr n \<longrightarrow> \<not> has_release_tag m') \<longrightarrow>
           in_modules mg ''other'' n \<and> (\<forall>g r. \<not> in_bucket mg g r n))"
proof (intro conjI impI)
  assume a: "\<forall>m' \<in> set (feed_modules ps).
             module_short_name m' = Inr n \<longrightarrow> only_mature_since ''kilo'' m'"
  with assms(2,3) have m: "only_mature_since ''kilo'' m" by blast
  from m assms(3) have f: "fills_bucket ul demo_releases m n g r \<longleftrightarrow>
      (g, r) \<in> {(''official-mature'', ''kilo''), (''official-other'', ''icehouse''),
                (''official-other'', ''juno'')}" for g r
    by (auto simp: fills_bucket_def only_mature_since_kilo_targets)
  from f assms(2) show "in_bucket mg ''official-mature'' ''kilo'' n"
    and "in_bucket mg ''official-other'' ''icehouse'' n"
    and "in_bucket mg ''official-other'' ''juno'' n"
    unfolding buckets_of_feed [OF assms(1)] by blast+
  show "\<forall>g r. in_bucket mg g r n \<longrightarrow>
              (g, r) \<in> {(''official-mature'', ''kilo''), (''official-other'', ''icehouse''),
                        (''official-other'', ''juno'')}"
  proof (intro allI impI)
    fix g r
    assume "in_bucket mg g r n"
    then obtain m' where m': "m' \<in> set (feed_modules ps)" "fills_bucket ul demo_releases m' n g r"
      unfolding buckets_of_feed [OF assms(1)] by blast
    then have "module_short_name m' = Inr n" by (simp add: fills_bucket_def)
    with a m'(1) have "only_mature_since ''kilo'' m'" by blast
    with m'(2) show "(g, r) \<in> {(''official-mature'', ''kilo''), (''official-other'', ''icehouse''),
                        (''official-other'', ''juno'')}"
      by (auto simp: fills_bucket_def only_mature_since_kilo_targets)
  qed
next
  assume a: "\<forall>m' \<in> set (feed_modules ps).
             module_short_name m' = Inr n \<longrightarrow> \<not> has_release_tag m'"
  with assms(2,3) have "\<not> has_release_tag m" by blast
  from other_modules_of_feed [OF assms this] show "in_modules mg ''other'' n" .
  from a show "\<forall>g r. \<not> in_bucket mg g r n"
    unfolding buckets_of_feed [OF assms(1)] by (auto simp: fills_bucket_def)
qed

theorem mature_since_kilo_buckets_witness:
  "in_bucket (projr (read_official_programs_yaml demo_lower (Some demo_feed) demo_releases))
     ''official-mature'' ''kilo'' ''nova'' \<and>
   \<not> in_bucket (projr (read_official_programs_yaml demo_lower (Some demo_feed) demo_releases))
     ''official-core'' ''kilo'' ''nova'' \<and>
   in_modules (projr (read_official_programs_yaml demo_lower (Some demo_feed) demo_releases))
     ''other'' ''nova-specs'' \<and>
   \<not> in_bucket (projr (read_official_programs_yaml demo_lower (Some demo_feed) demo_releases))
     ''official-other'' ''kilo'' ''nova-specs''"
proof -
  let ?res = "read_official_programs_yaml demo_lower (Some demo_feed) demo_releases"
  let ?m = "[''repo'' \<mapsto> ''openstack/nova'', ''mature-since'' \<mapsto> ''kilo'']"
  let ?s = "[''repo'' \<mapsto> ''openstack/nova-specs'']"
  have "\<not> isl ?res"
    by (rule read_official_programs_yaml_succeeds [OF demo_feed_well_formed])
  then have r: "?res = Inr (projr ?res)" by (cases ?res) simp_all
  have m: "?m \<in> set (feed_modules demo_feed)" and s: "?s \<in> set (feed_modules demo_feed)"
    by (simp_all add: demo_feed_modules)
  have am: "\<forall>m' \<in> set (feed_modules demo_feed).
      module_short_name m' = Inr ''nova'' \<longrightarrow> only_mature_since ''kilo'' m'"
    by (simp add: demo_feed_modules demo_short_names only_mature_since_def)
  have as: "\<forall>m' \<in> set (feed_modules demo_feed).
      module_short_name m' = Inr ''nova-specs'' \<longrightarrow> \<not> has_release_tag m'"
    by (simp add: demo_feed_modules demo_short_names has_release_tag_def RELEASE_TAGS_def)
  note ma = mature_since_kilo_buckets [OF r m demo_short_names(1), THEN conjunct1, THEN mp, OF am]
  from ma have 1: "in_bucket (projr ?res) ''official-mature'' ''kilo'' ''nova''"
    by (rule conjunct1)
  from ma have "\<forall>g r. in_bucket (projr ?res) g r ''nova'' \<longrightarrow>
      (g, r) \<in> {(''official-mature'', ''kilo''), (''official-other'', ''icehouse''),
                (''official-other'', ''juno'')}"
    by (elim conjE)
  then have "in_bucket (projr ?res) ''official-core'' ''kilo'' ''nova'' \<longrightarrow>
      (''official-core'', ''kilo'') \<in>
        {(''official-mature'', ''kilo''), (''official-other'', ''icehouse''),
         (''official-other'', ''juno'')}"
    by (elim allE)
  then have 2: "\<not> in_bucket (projr ?res) ''official-core'' ''kilo'' ''nova''"
    by simp
  note sp = mature_since_kilo_buckets [OF r s demo_short_names(2), THEN conjunct2, THEN mp, OF as]
  from sp have 3: "in_modules (projr ?res) ''other'' ''nova-specs''"
    by (rule conjunct1)
  from sp have "\<forall>g r. \<not> in_bucket (projr ?res) g r ''nova-specs''"
    by (rule conjunct2)
  then have 4: "\<not> in_bucket (projr ?res) ''official-other'' ''kilo'' ''nova-specs''"
    by (elim allE)
  from 1 2 3 4 show ?thesis by simp
qed

section \<open>Group ids and the four official groups\<close>

lemma has_tag_append_module:
  "has_tag mg k t \<Longrightarrow> has_tag (append_module mg k' n) k t"
  by (auto simp: has_tag_def append_module_def lookup_group_def Let_def)

lemma has_tag_append_release:
  "has_tag mg k t \<Longrightarrow> has_tag (append_release mg k' r n) k t"
  by (auto simp: has_tag_def append_release_def lookup_group_def Let_def)

lemma has_tag_releases_loop:
  "has_tag mg k t \<Longrightarrow> has_tag (releases_loop m n rs pt mg) k t"
  by (induction rs arbitrary: pt mg) (simp_all add: Let_def has_tag_append_release)

lemma has_tag_process_module:
  "process_module ul gid rels mg m = Inr mg' \<Longrightarrow> has_tag mg k t \<Longrightarrow> has_tag mg' k t"
  by (auto simp: process_module_def Let_def has_tag_releases_loop has_tag_append_module
      split: sum.splits if_splits)

lemma has_tag_process_modules:
  "process_modules ul gid rels mg ms = Inr mg' \<Longrightarrow> has_tag mg k t \<Longrightarrow> has_tag mg' k t"
proof (induction ms arbitrary: mg)
  case Nil
  then show ?case by simp
next
  case (Cons m ms)
  then obtain mg1 where 1: "process_module ul gid rels mg m = Inr mg1"
    and 2: "process_modules ul gid rels mg1 ms = Inr mg'"
    by (auto split: sum.splits)
  from has_tag_process_module [OF 1 Cons.prems(2)] Cons.IH [OF 2] show ?case by simp
qed

lemma has_tag_process_program:
  assumes "process_program ul rels mg p = Inr mg'" and "has_tag mg k t"
  shows "has_tag mg' k (if program_group_id ul p = k then Some ''program'' else t)"
proof -
  let ?gid = "program_group_id ul p"
  let ?mg1 = "mg(?gid \<mapsto> (lookup_group mg ?gid)\<lparr>module_group_name := Some (program_name p)\<rparr>)"
  let ?mg2 = "?mg1(?gid \<mapsto> (lookup_group ?mg1 ?gid)\<lparr>tag := Some ''program''\<rparr>)"
  from assms(1) obtain ms where "process_modules ul ?gid rels ?mg2 ms = Inr mg'"
    by (auto simp: process_program_def Let_def split: option.splits)
  moreover from assms(2)
  have "has_tag ?mg2 k (if ?gid = k then Some ''program'' else t)"
    by (auto simp: has_tag_def lookup_group_def)
  ultimately show ?thesis by (rule has_tag_process_modules)
qed

lemma has_tag_process_programs:
  "process_programs ul rels mg ps = Inr mg' \<Longrightarrow> has_tag mg k t \<Longrightarrow>
     has_tag mg' k (if \<exists>p \<in> set ps. program_group_id ul p = k then Some ''program'' else t)"
proof (induction ps arbitrary: mg t)
  case Nil
  then show ?case by simp
next
  case (Cons p ps)
  then obtain mg1 where 1: "process_program ul rels mg p = Inr mg1"
    and 2: "process_programs ul rels mg1 ps = Inr mg'"
    by (auto split: sum.splits)
  from Cons.IH [OF 2 has_tag_process_program [OF 1 Cons.prems(2)]] show ?case
    by (auto split: if_splits)
qed

lemma has_tag_set_ids: "has_tag (set_ids mg) k t \<longleftrightarrow> has_tag mg k t"
  by (auto simp: has_tag_def set_ids_def)

lemma has_tag_initial_groups:
  "k \<in> set official_ids \<Longrightarrow> has_tag initial_groups k (Some ''project_type'')"
  by (auto simp: has_tag_def official_ids_def initial_groups_def official_group_def)

lemma set_ids_key: "set_ids mg k = Some g \<Longrightarrow> group_id g = Some k"
  by (auto simp: set_ids_def)

text \<open>
  Claim C10 says that the four official groups always have the tag \<^verbatim>\<open>project_type\<close>.
  A program of the feed whose group id is one of the four ids writes its own name and the
  tag \<^verbatim>\<open>program\<close> into that group: nothing in the function keeps the ids apart.
\<close>

theorem program_named_official_core_counterexample:
  "\<not> isl (read_official_programs_yaml demo_lower
            (Some [(''Official-Core'', \<lparr>codename = None, projects = Some []\<rparr>)]) []) \<and>
   map_option tag
     (projr (read_official_programs_yaml demo_lower
               (Some [(''Official-Core'', \<lparr>codename = None, projects = Some []\<rparr>)]) [])
        ''official-core'') = Some (Some ''program'')"
proof -
  let ?p = "(''Official-Core'', \<lparr>codename = None, projects = Some []\<rparr>)"
  let ?res = "read_official_programs_yaml demo_lower (Some [?p]) []"
  have gid: "program_group_id demo_lower ?p = ''official-core''"
    by (simp add: program_group_id_def lower_def lower_char_def is_ascii_def)
  have "well_formed_feed [?p]" by (simp add: well_formed_feed_def feed_modules_def)
  then have ok: "\<not> isl ?res" by (rule read_official_programs_yaml_succeeds)
  then obtain mg0 where 0: "process_programs demo_lower [] initial_groups [?p] = Inr mg0"
    and mg: "?res = Inr (set_ids mg0)"
    by (auto simp: read_official_programs_yaml_def split: sum.splits)
  from 0 have 1: "process_program demo_lower [] initial_groups ?p = Inr mg0"
    by (auto split: sum.splits)
  have "''official-core'' \<in> set official_ids" by (simp add: official_ids_def)
  from has_tag_process_program [OF 1 has_tag_initial_groups [OF this]] gid
  have "has_tag mg0 ''official-core'' (Some ''program'')" by simp
  then have "map_option tag (set_ids mg0 ''official-core'') = Some (Some ''program'')"
    by (auto simp: has_tag_def set_ids_def)
  with ok mg show ?thesis by simp
qed

text \<open>
  Claim C10, amended: for every feed the function accepts, every group of the returned
  mapping has its key as \<^verbatim>\<open>id\<close>, so no two groups share an id; the four official
  groups are present, also for an empty feed; each of them has the tag
  \<^verbatim>\<open>project_type\<close> when no program of the feed has its id as group id, and the tag
  \<^verbatim>\<open>program\<close> when some program of the feed has.
\<close>

theorem group_ids_and_official_groups:
  assumes "read_official_programs_yaml ul (Some ps) release_names = Inr mg"
  shows "(\<forall>k g. mg k = Some g \<longrightarrow> group_id g = Some k) \<and>
         (\<forall>k k' g g'. mg k = Some g \<and> mg k' = Some g' \<and> group_id g = group_id g' \<longrightarrow> k = k') \<and>
         (\<forall>k \<in> set official_ids.
            mg k \<noteq> None \<and>
            ((\<forall>p \<in> set ps. program_group_id ul p \<noteq> k) \<longrightarrow>
               has_tag mg k (Some ''project_type'')) \<and>
            ((\<exists>p \<in> set ps. program_group_id ul p = k) \<longrightarrow>
               has_tag mg k (Some ''program'')))"
proof -
  from assms obtain mg0 where 0: "process_programs ul release_names initial_groups ps = Inr mg0"
    and mg: "mg = set_ids mg0"
    by (auto simp: read_official_programs_yaml_def split: sum.splits)
  have ids: "\<And>k g. mg k = Some g \<Longrightarrow> group_id g = Some k"
    unfolding mg by (rule set_ids_key)
  have uniq: "\<And>k k' g g'. mg k = Some g \<Longrightarrow> mg k' = Some g' \<Longrightarrow> group_id g = group_id g' \<Longrightarrow> k = k'"
  proof -
    fix k k' g g'
    assume "mg k = Some g" "mg k' = Some g'" "group_id g = group_id g'"
    with ids [of k g] ids [of k' g'] show "k = k'" by simp
  qed
  have off: "mg k \<noteq> None \<and>
            ((\<forall>p \<in> set ps. program_group_id ul p \<noteq> k) \<longrightarrow>
               has_tag mg k (Some ''project_type'')) \<and>
            ((\<exists>p \<in> set ps. program_group_id ul p = k) \<longrightarrow>
               has_tag mg k (Some ''program''))"
    if "k \<in> set official_ids" for k
  proof -
    from has_tag_process_programs [OF 0 has_tag_initial_groups [OF that]]
    have "has_tag mg k (if \<exists>p \<in> set ps. program_group_id ul p = k then Some ''program''
                        else Some ''project_type'')"
      by (simp add: mg has_tag_set_ids)
    then show ?thesis by (auto simp: has_tag_def split: if_splits)
  qed
  from ids uniq off show ?thesis by blast
qed

text \<open>
  A feed with the programs \<^verbatim>\<open>Official-Mature\<close> and \<^verbatim>\<open>Compute\<close> (codename
  \<^verbatim>\<open>Nova\<close>): the group \<^verbatim>\<open>official-core\<close>, whose id no program has, keeps
  \<^verbatim>\<open>project_type\<close>, and the group \<^verbatim>\<open>official-mature\<close> is tagged \<^verbatim>\<open>program\<close>.
\<close>

lemma retag_feed_group_ids:
  "map (program_group_id demo_lower) retag_feed = [''official-mature'', ''nova-group'']"
  by (simp add: retag_feed_def demo_feed_def program_group_id_def lower_def lower_char_def
      is_ascii_def)

lemma retag_feed_well_formed: "well_formed_feed retag_feed"
  using demo_feed_well_formed
  by (simp add: well_formed_feed_def retag_feed_def feed_modules_def)

lemma empty_feed_accepted:
  "read_official_programs_yaml ul (Some []) release_names = Inr (set_ids initial_groups)"
  by (simp add: read_official_programs_yaml_def)

theorem group_ids_and_official_groups_witness:
  "\<not> isl (read_official_programs_yaml demo_lower (Some retag_feed) demo_releases) \<and>
   map_option tag
     (projr (read_official_programs_yaml demo_lower (Some retag_feed) demo_releases)
        ''official-core'') = Some (Some ''project_type'') \<and>
   map_option tag
     (projr (read_official_programs_yaml demo_lower (Some retag_feed) demo_releases)
        ''official-mature'') = Some (Some ''program'') \<and>
   map_option group_id
     (projr (read_official_programs_yaml demo_lower (Some retag_feed) demo_releases)
        ''official-mature'') = Some (Some ''official-mature'')"
proof -
  let ?res = "read_official_programs_yaml demo_lower (Some retag_feed) demo_releases"
  have ok: "\<not> isl ?res"
    by (rule read_official_programs_yaml_succeeds [OF retag_feed_well_formed])
  then have r: "?res = Inr (projr ?res)" by (cases ?res) simp_all
  have kc: "''official-core'' \<in> set official_ids"
    and km: "''official-mature'' \<in> set official_ids"
    by (simp_all add: official_ids_def)
  have gids: "program_group_id demo_lower ` set retag_feed = {''official-mature'', ''nova-group''}"
    using retag_feed_group_ids by (metis list.set_map list.simps(15) empty_set)
  have nc: "\<forall>p \<in> set retag_feed. program_group_id demo_lower p \<noteq> ''official-core''"
  proof
    fix p assume "p \<in> set retag_feed"
    then have "program_group_id demo_lower p \<in> {''official-mature'', ''nova-group''}"
      using gids by blast
    then show "program_group_id demo_lower p \<noteq> ''official-core''" by auto
  qed
  have em: "\<exists>p \<in> set retag_feed. program_group_id demo_lower p = ''official-mature''"
  proof -
    have "''official-mature'' \<in> program_group_id demo_lower ` set retag_feed"
      unfolding gids by simp
    then show ?thesis by (auto simp: image_iff)
  qed
  note t = group_ids_and_official_groups [OF r]
  from t have ids: "\<forall>k g. projr ?res k = Some g \<longrightarrow> group_id g = Some k"
    by (rule conjunct1)
  from t have off: "\<forall>k \<in> set official_ids.
            projr ?res k \<noteq> None \<and>
            ((\<forall>p \<in> set retag_feed. program_group_id demo_lower p \<noteq> k) \<longrightarrow>
               has_tag (projr ?res) k (Some ''project_type'')) \<and>
            ((\<exists>p \<in> set retag_feed. program_group_id demo_lower p = k) \<longrightarrow>
               has_tag (projr ?res) k (Some ''program''))"
    by (elim conjE)
  have "has_tag (projr ?res) ''official-core'' (Some ''project_type'')"
    by (rule mp [OF conjunct1 [OF conjunct2 [OF bspec [OF off kc]]] nc])
  then have 1: "map_option tag (projr ?res ''official-core'') = Some (Some ''project_type'')"
    unfolding has_tag_def by (elim exE conjE) simp
  have "has_tag (projr ?res) ''official-mature'' (Some ''program'')"
    by (rule mp [OF conjunct2 [OF conjunct2 [OF bspec [OF off km]]] em])
  then obtain g where g: "projr ?res ''official-mature'' = Some g" "tag g = Some ''program''"
    unfolding has_tag_def by (elim exE conjE)
  from ids g(1) have "group_id g = Some ''official-mature''" by (elim allE impE)
  with g have 2: "map_option tag (projr ?res ''official-mature'') = Some (Some ''program'')"
    and 3: "map_option group_id (projr ?res ''official-mature'') = Some (Some ''official-mature'')"
    by simp_all
  from ok 1 2 3 show ?thesis by (intro conjI)
qed

end
